theory Spec2Isabelle
  imports Main "HOL-Library.Sublist" "HOL-Library.AList"
begin

section \<open>Characters and strings\<close>

text \<open>
  The decoder of \<^verbatim>\<open>src/provider.ts\<close> works on JavaScript strings. They are modelled as
  \<^typ>\<open>string\<close>, the text in bytes, so \<open>length\<close> is the source's \<^verbatim>\<open>.length\<close>, \<open>take\<close> and
  \<open>drop\<close> are \<^verbatim>\<open>slice\<close>, \<open>prefix\<close> is \<^verbatim>\<open>startsWith\<close> and \<open>suffix\<close> is \<^verbatim>\<open>endsWith\<close>.
  All markers are ASCII, where a byte is a character of the source; for text outside ASCII
  the model counts the bytes of its UTF-8 form where the source counts UTF-16 units, which
  shows only in the size estimate.
\<close>

definition char_between :: "char \<Rightarrow> char \<Rightarrow> char \<Rightarrow> bool" where
  "char_between lo hi c = ((of_char lo :: nat) \<le> of_char c \<and> (of_char c :: nat) \<le> of_char hi)"

definition isDigit :: "char \<Rightarrow> bool" where
  "isDigit c = char_between CHR ''0'' CHR ''9'' c"

definition isAlnum :: "char \<Rightarrow> bool" where
  "isAlnum c = (char_between CHR ''a'' CHR ''z'' c \<or> char_between CHR ''A'' CHR ''Z'' c \<or> isDigit c)"

definition isHex :: "char \<Rightarrow> bool" where
  "isHex c = (isDigit c \<or> char_between CHR ''a'' CHR ''f'' c \<or> char_between CHR ''A'' CHR ''F'' c)"

text \<open>\<^verbatim>\<open>String.prototype.trim\<close>, for the white space characters of ASCII.\<close>

definition isSpace :: "char \<Rightarrow> bool" where
  "isSpace c = (c = CHR 0x20 \<or> char_between (CHR 0x09) (CHR 0x0D) c)"

definition trim :: "string \<Rightarrow> string" where
  "trim s = rev (dropWhile isSpace (rev (dropWhile isSpace s)))"

definition digitVal :: "char \<Rightarrow> nat" where
  "digitVal c = of_char c - 48"

definition hexVal :: "char \<Rightarrow> nat" where
  "hexVal c = (if isDigit c then of_char c - 48
               else if char_between CHR ''a'' CHR ''f'' c then of_char c - 87
               else of_char c - 55)"

text \<open>\<^verbatim>\<open>Number(digits)\<close> for a string of decimal digits, as an exact natural number (the
  source's number is exact up to \<open>2 ^ 53\<close>).\<close>

definition natOfDigits :: "string \<Rightarrow> nat" where
  "natOfDigits ds = foldl (\<lambda>a c. 10 * a + digitVal c) 0 ds"

definition digitChar :: "nat \<Rightarrow> char" where
  "digitChar d = char_of (48 + d)"

text \<open>The decimal rendering of a number inside a template string.\<close>

fun showNat :: "nat \<Rightarrow> string" where
  "showNat n = (if n < 10 then [digitChar n] else showNat (n div 10) @ [digitChar (n mod 10)])"

declare showNat.simps [simp del]

definition showInt :: "int \<Rightarrow> string" where
  "showInt i = (if i < 0 then CHR ''-'' # showNat (nat (- i)) else showNat (nat i))"

text \<open>\<^verbatim>\<open>data.indexOf(pat)\<close>: the first position where \<open>pat\<close> occurs, \<open>None\<close> for \<open>-1\<close>.\<close>

fun indexOf :: "string \<Rightarrow> string \<Rightarrow> nat option" where
  "indexOf [] pat = (if pat = [] then Some 0 else None)"
| "indexOf (c # cs) pat =
     (if prefix pat (c # cs) then Some 0 else map_option Suc (indexOf cs pat))"

section \<open>JSON values\<close>

text \<open>
  The values \<^verbatim>\<open>JSON.parse\<close> produces. A number is kept as an exact decimal
  \<open>mantissa * 10 ^ exponent\<close> in normal form (the mantissa is not a multiple of ten, and zero
  is \<open>JNum 0 0\<close>); the rounding to a binary double is not part of the model. An object keeps
  its members in the order of first appearance, a repeated key overwriting the value in
  place; that the built-in enumerates keys that are array indices first is not part of the
  model either. Both matter only for which argument texts have the same canonical form.
\<close>

datatype json =
    JNull
  | JBool bool
  | JNum int int
  | JStr string
  | JArr "json list"
  | JObj "(string \<times> json) list"

datatype token =
    TLBrace | TRBrace | TLBrack | TRBrack | TColon | TComma
  | TStr string | TNum int int | TTrue | TFalse | TNull

subsection \<open>Lexing\<close>

definition utf8 :: "nat \<Rightarrow> string" where
  "utf8 n = (if n < 128 then [char_of n]
             else if n < 2048 then [char_of (192 + n div 64), char_of (128 + n mod 64)]
             else [char_of (224 + n div 4096), char_of (128 + (n div 64) mod 64),
                   char_of (128 + n mod 64)])"

definition consStr :: "string \<Rightarrow> (string \<times> string) option \<Rightarrow> (string \<times> string) option" where
  "consStr p r = map_option (\<lambda>(s, rest). (p @ s, rest)) r"

text \<open>An escape sequence after its backslash: the characters it stands for, and the text
  after it.\<close>

definition lexEscape :: "string \<Rightarrow> (string \<times> string) option" where
  "lexEscape s =
     (case s of
        [] \<Rightarrow> None
      | e # r \<Rightarrow>
         (if e = CHR 0x22 \<or> e = CHR 0x5C \<or> e = CHR ''/'' then Some ([e], r)
          else if e = CHR ''b'' then Some ([CHR 0x08], r)
          else if e = CHR ''f'' then Some ([CHR 0x0C], r)
          else if e = CHR ''n'' then Some ([CHR 0x0A], r)
          else if e = CHR ''r'' then Some ([CHR 0x0D], r)
          else if e = CHR ''t'' then Some ([CHR 0x09], r)
          else if e = CHR ''u'' then
            (case r of
               h1 # h2 # h3 # h4 # r' \<Rightarrow>
                 (if isHex h1 \<and> isHex h2 \<and> isHex h3 \<and> isHex h4
                  then Some (utf8 (4096 * hexVal h1 + 256 * hexVal h2 + 16 * hexVal h3 + hexVal h4), r')
                  else None)
             | _ \<Rightarrow> None)
          else None))"

lemma lexEscape_length: "lexEscape s = Some (p, r) \<Longrightarrow> length r < length s"
  unfolding lexEscape_def
  by (cases s) (auto split: if_splits list.splits)

text \<open>The characters of a string literal after its opening quote, and the text after its
  closing quote.\<close>

function lexString :: "string \<Rightarrow> (string \<times> string) option" where
  "lexString [] = None"
| "lexString (c # cs) =
     (if c = CHR 0x22 then Some ([], cs)
      else if c = CHR 0x5C then
        (case lexEscape cs of
           None \<Rightarrow> None
         | Some (p, r) \<Rightarrow> consStr p (lexString r))
      else if (of_char c :: nat) < 32 then None
      else consStr [c] (lexString cs))"
  by pat_completeness auto
termination
  by (relation "measure length") (auto dest: lexEscape_length)

lemma consStr_SomeD: "consStr p x = Some (t, r) \<Longrightarrow> \<exists>t'. x = Some (t', r)"
  by (auto simp: consStr_def)

text \<open>An exact decimal in normal form, from the digits of the mantissa and an exponent.\<close>

definition mkNum :: "bool \<Rightarrow> string \<Rightarrow> int \<Rightarrow> token" where
  "mkNum neg ds e =
     (let z = length (takeWhile (\<lambda>c. c = CHR ''0'') (rev ds));
          m = int (natOfDigits (take (length ds - z) ds))
      in if m = 0 then TNum 0 0 else TNum (if neg then - m else m) (e + int z))"

definition lexExponent :: "string \<Rightarrow> (int \<times> string) option" where
  "lexExponent s =
     (case s of
        [] \<Rightarrow> Some (0, s)
      | c # cs \<Rightarrow>
         (if c = CHR ''e'' \<or> c = CHR ''E'' then
            (let (neg, ds) = (case cs of
                                [] \<Rightarrow> (False, cs)
                              | d # r \<Rightarrow> if d = CHR ''-'' then (True, r)
                                         else if d = CHR ''+'' then (False, r) else (False, cs))
             in if takeWhile isDigit ds = [] then None
                else Some ((if neg then - int (natOfDigits (takeWhile isDigit ds))
                            else int (natOfDigits (takeWhile isDigit ds))),
                           dropWhile isDigit ds))
          else Some (0, s)))"

definition lexFraction :: "string \<Rightarrow> (string \<times> string) option" where
  "lexFraction s =
     (case s of
        [] \<Rightarrow> Some ([], s)
      | c # cs \<Rightarrow>
         (if c = CHR ''.'' then
            (if takeWhile isDigit cs = [] then None
             else Some (takeWhile isDigit cs, dropWhile isDigit cs))
          else Some ([], s)))"

definition lexInteger :: "string \<Rightarrow> (string \<times> string) option" where
  "lexInteger s =
     (case s of
        [] \<Rightarrow> None
      | c # cs \<Rightarrow>
         (if c = CHR ''0'' then Some ([c], cs)
          else if isDigit c then Some (takeWhile isDigit s, dropWhile isDigit s)
          else None))"

text \<open>A number literal at the head of the text: the token and the text after it.\<close>

definition lexNumber :: "string \<Rightarrow> (token \<times> string) option" where
  "lexNumber s =
     (let (neg, s1) = (case s of [] \<Rightarrow> (False, s)
                       | c # cs \<Rightarrow> if c = CHR ''-'' then (True, cs) else (False, s))
      in case lexInteger s1 of
           None \<Rightarrow> None
         | Some (ip, s2) \<Rightarrow>
            (case lexFraction s2 of
               None \<Rightarrow> None
             | Some (fp, s3) \<Rightarrow>
                (case lexExponent s3 of
                   None \<Rightarrow> None
                 | Some (ex, s4) \<Rightarrow> Some (mkNum neg (ip @ fp) (ex - int (length fp)), s4))))"

lemma lexString_length: "lexString s = Some (t, r) \<Longrightarrow> length r < length s"
proof (induction s arbitrary: t r rule: lexString.induct)
  case 1
  then show ?case by simp
next
  case (2 c cs)
  show ?case
  proof (cases "c = CHR 0x22")
    case True
    with "2.prems" show ?thesis by simp
  next
    case notq: False
    show ?thesis
    proof (cases "c = CHR 0x5C")
      case True
      with notq "2.prems" obtain p r0 where e: "lexEscape cs = Some (p, r0)"
        and c: "consStr p (lexString r0) = Some (t, r)"
        by (auto split: option.splits)
      from c obtain t' where "lexString r0 = Some (t', r)"
        by (auto dest: consStr_SomeD)
      with "2.IH"(1) [OF notq True e refl] have "length r < length r0" by simp
      with lexEscape_length [OF e] show ?thesis by simp
    next
      case False
      with notq "2.prems" have lo: "\<not> (of_char c :: nat) < 32"
        and c: "consStr [c] (lexString cs) = Some (t, r)"
        by (auto split: if_splits)
      from c obtain t' where "lexString cs = Some (t', r)"
        by (auto dest: consStr_SomeD)
      with "2.IH"(2) [OF notq False lo] show ?thesis by simp
    qed
  qed
qed

lemma lexExponent_length: "lexExponent s = Some (e, r) \<Longrightarrow> length r \<le> length s"
  by (auto simp: lexExponent_def split: list.splits if_splits prod.splits
      intro: le_trans [OF length_dropWhile_le])

lemma lexFraction_length: "lexFraction s = Some (f, r) \<Longrightarrow> length r \<le> length s"
  by (auto simp: lexFraction_def split: list.splits if_splits
      intro: le_trans [OF length_dropWhile_le])

lemma lexInteger_length: "lexInteger s = Some (i, r) \<Longrightarrow> length r < length s"
  by (auto simp: lexInteger_def split: list.splits if_splits
      intro: le_imp_less_Suc [OF length_dropWhile_le])

lemma lexNumber_length: "lexNumber s = Some (t, r) \<Longrightarrow> length r < length s"
  by (auto simp: lexNumber_def split: list.splits if_splits option.splits prod.splits
      dest!: lexInteger_length lexFraction_length lexExponent_length)

definition consTok :: "token \<Rightarrow> token list option \<Rightarrow> token list option" where
  "consTok t r = map_option (\<lambda>ts. t # ts) r"

function tokenize :: "string \<Rightarrow> token list option" where
  "tokenize [] = Some []"
| "tokenize (c # cs) =
     (if c = CHR 0x20 \<or> c = CHR 0x09 \<or> c = CHR 0x0A \<or> c = CHR 0x0D then tokenize cs
      else if c = CHR ''{'' then consTok TLBrace (tokenize cs)
      else if c = CHR ''}'' then consTok TRBrace (tokenize cs)
      else if c = CHR ''['' then consTok TLBrack (tokenize cs)
      else if c = CHR '']'' then consTok TRBrack (tokenize cs)
      else if c = CHR '':'' then consTok TColon (tokenize cs)
      else if c = CHR '','' then consTok TComma (tokenize cs)
      else if c = CHR 0x22 then
        (case lexString cs of
           None \<Rightarrow> None
         | Some (s, r) \<Rightarrow> consTok (TStr s) (tokenize r))
      else if c = CHR ''-'' \<or> isDigit c then
        (case lexNumber (c # cs) of
           None \<Rightarrow> None
         | Some (t, r) \<Rightarrow> consTok t (tokenize r))
      else if prefix ''true'' (c # cs) then consTok TTrue (tokenize (drop 4 (c # cs)))
      else if prefix ''false'' (c # cs) then consTok TFalse (tokenize (drop 5 (c # cs)))
      else if prefix ''null'' (c # cs) then consTok TNull (tokenize (drop 4 (c # cs)))
      else None)"
  by pat_completeness auto
termination
proof (relation "measure length", goal_cases)
  case (9 c cs x2 s r)
  then have "lexString cs = Some (s, r)" by simp
  then show ?case by (auto dest: lexString_length)
next
  case (10 c cs x2 t r)
  then have "lexNumber (c # cs) = Some (t, r)" by simp
  then show ?case by (auto dest: lexNumber_length)
qed simp_all

subsection \<open>Parsing\<close>

text \<open>
  The grammar of JSON over the tokens, as a pushdown automaton: the stack holds the arrays and
  objects that are still open, innermost first.
\<close>

datatype frame =
    InArr "json list"
  | InObj "(string \<times> json) list" string

datatype pstate =
    NeedValue "frame list"
  | AfterLBrack "frame list"
  | AfterLBrace "frame list"
  | NeedKey "(string \<times> json) list" "frame list"
  | NeedColon "(string \<times> json) list" string "frame list"
  | AfterElem "json list" "frame list"
  | AfterMember "(string \<times> json) list" "frame list"
  | Finished json

text \<open>A value is complete: it goes into the innermost open container.\<close>

fun reduce :: "json \<Rightarrow> frame list \<Rightarrow> pstate" where
  "reduce v [] = Finished v"
| "reduce v (InArr xs # st) = AfterElem (xs @ [v]) st"
| "reduce v (InObj ms k # st) = AfterMember (AList.update k v ms) st"

fun startValue :: "token \<Rightarrow> frame list \<Rightarrow> pstate option" where
  "startValue TLBrace st = Some (AfterLBrace st)"
| "startValue TLBrack st = Some (AfterLBrack st)"
| "startValue (TStr s) st = Some (reduce (JStr s) st)"
| "startValue (TNum m e) st = Some (reduce (JNum m e) st)"
| "startValue TTrue st = Some (reduce (JBool True) st)"
| "startValue TFalse st = Some (reduce (JBool False) st)"
| "startValue TNull st = Some (reduce JNull st)"
| "startValue _ st = None"

fun pstep :: "pstate \<Rightarrow> token \<Rightarrow> pstate option" where
  "pstep (NeedValue st) t = startValue t st"
| "pstep (AfterLBrack st) t =
     (if t = TRBrack then Some (reduce (JArr []) st) else startValue t (InArr [] # st))"
| "pstep (AfterLBrace st) t =
     (case t of
        TRBrace \<Rightarrow> Some (reduce (JObj []) st)
      | TStr k \<Rightarrow> Some (NeedColon [] k st)
      | _ \<Rightarrow> None)"
| "pstep (NeedKey ms st) t =
     (case t of TStr k \<Rightarrow> Some (NeedColon ms k st) | _ \<Rightarrow> None)"
| "pstep (NeedColon ms k st) t =
     (if t = TColon then Some (NeedValue (InObj ms k # st)) else None)"
| "pstep (AfterElem xs st) t =
     (if t = TComma then Some (NeedValue (InArr xs # st))
      else if t = TRBrack then Some (reduce (JArr xs) st)
      else None)"
| "pstep (AfterMember ms st) t =
     (if t = TComma then Some (NeedKey ms st)
      else if t = TRBrace then Some (reduce (JObj ms) st)
      else None)"
| "pstep (Finished v) t = None"

fun prun :: "pstate \<Rightarrow> token list \<Rightarrow> pstate option" where
  "prun s [] = Some s"
| "prun s (t # ts) = (case pstep s t of None \<Rightarrow> None | Some s' \<Rightarrow> prun s' ts)"

text \<open>\<^verbatim>\<open>JSON.parse\<close>: \<open>None\<close> where the built-in throws a \<^verbatim>\<open>SyntaxError\<close>.\<close>

definition JSON_parse :: "string \<Rightarrow> json option" where
  "JSON_parse s =
     (case tokenize s of
        None \<Rightarrow> None
      | Some ts \<Rightarrow>
         (case prun (NeedValue []) ts of
            Some (Finished v) \<Rightarrow> Some v
          | _ \<Rightarrow> None))"

subsection \<open>Serialising\<close>

definition hexDigit :: "nat \<Rightarrow> char" where
  "hexDigit d = (if d < 10 then char_of (48 + d) else char_of (87 + d))"

definition quoteChar :: "char \<Rightarrow> string" where
  "quoteChar c =
     (if c = CHR 0x22 then [CHR 0x5C, CHR 0x22]
      else if c = CHR 0x5C then [CHR 0x5C, CHR 0x5C]
      else if c = CHR 0x08 then [CHR 0x5C, CHR ''b'']
      else if c = CHR 0x0C then [CHR 0x5C, CHR ''f'']
      else if c = CHR 0x0A then [CHR 0x5C, CHR ''n'']
      else if c = CHR 0x0D then [CHR 0x5C, CHR ''r'']
      else if c = CHR 0x09 then [CHR 0x5C, CHR ''t'']
      else if (of_char c :: nat) < 32
        then [CHR 0x5C, CHR ''u'', CHR ''0'', CHR ''0'',
              hexDigit (of_char c div 16), hexDigit (of_char c mod 16)]
      else [c])"

definition quote :: "string \<Rightarrow> string" where
  "quote s = [CHR 0x22] @ concat (map quoteChar s) @ [CHR 0x22]"

fun commaSep :: "string list \<Rightarrow> string" where
  "commaSep [] = []"
| "commaSep [x] = x"
| "commaSep (x # y # ys) = x @ '','' @ commaSep (y # ys)"

text \<open>
  A number whose value is an integer is printed in plain decimal; any other number is printed
  as its mantissa and exponent, which stands for the built-in's rendering of a double.
\<close>

definition showNum :: "int \<Rightarrow> int \<Rightarrow> string" where
  "showNum m e = (if 0 \<le> e then showInt (m * 10 ^ nat e) else showInt m @ ''e'' @ showInt e)"

text \<open>\<^verbatim>\<open>JSON.stringify\<close> without indentation, the canonical form of a parsed value.\<close>

fun JSON_stringify :: "json \<Rightarrow> string" where
  "JSON_stringify JNull = ''null''"
| "JSON_stringify (JBool b) = (if b then ''true'' else ''false'')"
| "JSON_stringify (JNum m e) = showNum m e"
| "JSON_stringify (JStr s) = quote s"
| "JSON_stringify (JArr xs) = ''['' @ commaSep (map JSON_stringify xs) @ '']''"
| "JSON_stringify (JObj ms) =
     ''{'' @ commaSep (map (\<lambda>(k, v). quote k @ '':'' @ JSON_stringify v) ms) @ ''}''"

subsection \<open>The helper of \<^verbatim>\<open>src/utils.ts\<close>\<close>

text \<open>
  Modelled from the spec: \<^verbatim>\<open>tryParseJSONObject\<close> of \<^verbatim>\<open>src/utils.ts\<close>, which is imported by
  \<^verbatim>\<open>src/provider.ts\<close> and exercised by \<^verbatim>\<open>src/test/provider.test.ts\<close> but whose source is
  not at hand. The spec (4.3): the text is parsed as a single JSON object, white space
  around it ignored; it "must parse as an object, not an array or scalar". \<open>Some v\<close> is
  \<^verbatim>\<open>{ ok: true, value: v }\<close> and \<open>None\<close> is \<^verbatim>\<open>{ ok: false }\<close>.
\<close>

definition tryParseJSONObject :: "string \<Rightarrow> json option" where
  "tryParseJSONObject text =
     (case JSON_parse (trim text) of
        Some (JObj ms) \<Rightarrow> Some (JObj ms)
      | _ \<Rightarrow> None)"

text \<open>The three assertions of the repository's test of the helper
  (\<^verbatim>\<open>src/test/provider.test.ts\<close>, suite \<^verbatim>\<open>utils/json\<close>).\<close>

lemma tryParseJSONObject_test:
  \<open>tryParseJSONObject ''{"a":1}'' = Some (JObj [(''a'', JNum 1 0)])\<close>
  \<open>tryParseJSONObject ''[1,2,3]'' = None\<close>
  \<open>tryParseJSONObject ''not json'' = None\<close>
  by code_simp+

section \<open>The decoding session of \<^verbatim>\<open>src/provider.ts\<close>\<close>

subsection \<open>Response parts and session state\<close>

text \<open>
  The identifier of a reported tool call is the one the server sent, or a fresh one:
  \<open>FreshId p\<close> stands for the prefix \<open>p\<close> followed by the digits drawn from
  \<^verbatim>\<open>Math.random\<close>, which the model leaves open.
\<close>

datatype call_id = ServerId string | FreshId string

datatype part =
    TextPart string
  | ThinkingPart string "string option" "json option"
  | ToolCallPart call_id string json

text \<open>What can be thrown: \<^verbatim>\<open>Error("Invalid JSON for tool call")\<close> of
  \<^verbatim>\<open>flushToolCallBuffers\<close>, and the rejection of a \<^verbatim>\<open>read\<close> of the response body.\<close>

datatype error = InvalidToolCallPayload | ReadFailed

text \<open>An entry of \<^verbatim>\<open>_toolCallBuffers\<close>.\<close>

record tool_buf =
  buf_id :: "string option"
  buf_name :: "string option"
  buf_args :: string

text \<open>The object held by \<^verbatim>\<open>_textToolActive\<close>.\<close>

record text_tool =
  call_name :: "string option"
  call_index :: "nat option"
  argBuffer :: string
  emitted :: bool

text \<open>
  The private fields of \<^verbatim>\<open>ChatGLMRouterProvider\<close> that the decoder mutates.
  \<^verbatim>\<open>_toolCallBuffers\<close> is a \<^verbatim>\<open>Map\<close>, which iterates in insertion order: an association
  list with distinct keys. The field \<open>reported\<close> is the \<^verbatim>\<open>progress\<close> sink: every part
  handed to \<^verbatim>\<open>progress.report\<close>, in order, each with the contents of
  \<^verbatim>\<open>_emittedTextToolCallKeys\<close> at the moment of the call.
\<close>

record session =
  toolCallBuffers :: "(int \<times> tool_buf) list"
  completedToolCallIndices :: "int set"
  hasEmittedAssistantText :: bool
  emittedBeginToolCallsHint :: bool
  textToolParserBuffer :: string
  textToolActive :: "text_tool option"
  emittedTextToolCallKeys :: "string set"
  emittedTextToolCallIds :: "string set"
  outputTokenCount :: nat
  reported :: "(part \<times> string set) list"

definition report :: "part \<Rightarrow> session \<Rightarrow> session" where
  "report p st = st\<lparr>reported := reported st @ [(p, emittedTextToolCallKeys st)]\<rparr>"

definition events :: "session \<Rightarrow> part list" where
  "events st = map fst (reported st)"

text \<open>The field initialisers of the class.\<close>

definition initial :: session where
  "initial = \<lparr>toolCallBuffers = [], completedToolCallIndices = {},
     hasEmittedAssistantText = False, emittedBeginToolCallsHint = False,
     textToolParserBuffer = [], textToolActive = None,
     emittedTextToolCallKeys = {}, emittedTextToolCallIds = {},
     outputTokenCount = 0, reported = []\<rparr>"

subsection \<open>\<^verbatim>\<open>stripControlTokens\<close>\<close>

text \<open>
  \<^verbatim>\<open>text.replace(re, "")\<close> with a global regular expression: the text is scanned from the
  left, a match at the current position is left out and the scan goes on behind it, any
  other character is kept. \<open>m s\<close> is the length of the match at the head of \<open>s\<close>; the second
  argument counts the characters of a match still to be left out.
\<close>

fun removeMatches :: "(string \<Rightarrow> nat option) \<Rightarrow> nat \<Rightarrow> string \<Rightarrow> string" where
  "removeMatches m k [] = []"
| "removeMatches m (Suc k) (c # cs) = removeMatches m k cs"
| "removeMatches m 0 (c # cs) =
     (case m (c # cs) of
        Some n \<Rightarrow> removeMatches m (n - 1) cs
      | None \<Rightarrow> c # removeMatches m 0 cs)"

definition isSectionChar :: "char \<Rightarrow> bool" where
  "isSectionChar c = (isAlnum c \<or> c = CHR ''_'' \<or> c = CHR ''-'')"

text \<open>
  \<^verbatim>\<open>/<\|[a-zA-Z0-9_-]+_section_(?:begin|end)\|>/\<close> at the head of \<open>s\<close>. The character after the
  match of the class and of \<^verbatim>\<open>_section_begin\<close> or \<^verbatim>\<open>_section_end\<close> must be \<^verbatim>\<open>|\<close>, which is
  not in the class, while every character of \<^verbatim>\<open>_section_begin\<close> is: so a match takes the
  whole run of class characters after \<^verbatim>\<open><|\<close>, the run ends with one of the two words and
  something stands before the word.
\<close>

definition matchSection :: "string \<Rightarrow> nat option" where
  "matchSection s =
     (if prefix ''<|'' s then
        (let run = takeWhile isSectionChar (drop 2 s);
             rest = dropWhile isSectionChar (drop 2 s)
         in if prefix ''|>'' rest \<and>
               ((suffix ''_section_begin'' run \<and> 14 < length run) \<or>
                (suffix ''_section_end'' run \<and> 12 < length run))
            then Some (length run + 4) else None)
      else None)"

text \<open>\<^verbatim>\<open>/<\|tool_call_(?:argument_)?(?:begin|end)\|>/\<close> at the head of \<open>s\<close>.\<close>

definition matchToolToken :: "string \<Rightarrow> nat option" where
  "matchToolToken s =
     (if prefix ''<|tool_call_argument_begin|>'' s then Some 28
      else if prefix ''<|tool_call_argument_end|>'' s then Some 26
      else if prefix ''<|tool_call_begin|>'' s then Some 19
      else if prefix ''<|tool_call_end|>'' s then Some 17
      else None)"

definition stripControlTokens :: "string \<Rightarrow> string" where
  "stripControlTokens text =
     removeMatches matchToolToken 0 (removeMatches matchSection 0 text)"

text \<open>The lengths in \<open>matchToolToken\<close> are those of the four tokens.\<close>

lemma matchToolToken_lengths:
  "matchToolToken ''<|tool_call_argument_begin|>'' = Some (length ''<|tool_call_argument_begin|>'')"
  "matchToolToken ''<|tool_call_argument_end|>'' = Some (length ''<|tool_call_argument_end|>'')"
  "matchToolToken ''<|tool_call_begin|>'' = Some (length ''<|tool_call_begin|>'')"
  "matchToolToken ''<|tool_call_end|>'' = Some (length ''<|tool_call_end|>'')"
  by (simp_all add: matchToolToken_def)

subsection \<open>\<^verbatim>\<open>emitTextToolCallIfValid\<close>\<close>

definition emitTextToolCallIfValid :: "text_tool \<Rightarrow> string \<Rightarrow> session \<Rightarrow> bool \<times> session" where
  "emitTextToolCallIfValid call argText st =
     (let name = (case call_name call of None \<Rightarrow> ''unknown_tool'' | Some n \<Rightarrow> n)
      in case tryParseJSONObject argText of
           None \<Rightarrow> (False, st)
         | Some v \<Rightarrow>
            (let canonical = JSON_stringify v;
                 key = name @ '':'' @ canonical
             in case call_index call of
                  Some i \<Rightarrow>
                    (let idKey = name @ '':'' @ showNat i
                     in if idKey \<in> emittedTextToolCallIds st then (False, st)
                        else
                          (let st1 = st\<lparr>emittedTextToolCallIds := insert idKey (emittedTextToolCallIds st)\<rparr>;
                               st2 = st1\<lparr>emittedTextToolCallKeys := insert key (emittedTextToolCallKeys st1)\<rparr>
                           in (True, report (ToolCallPart (FreshId ''tct_'') name v) st2)))
                | None \<Rightarrow>
                    (if key \<in> emittedTextToolCallKeys st then (False, st)
                     else
                       (let st2 = st\<lparr>emittedTextToolCallKeys := insert key (emittedTextToolCallKeys st)\<rparr>
                        in (True, report (ToolCallPart (FreshId ''tct_'') name v) st2)))))"

subsection \<open>\<^verbatim>\<open>processTextContent\<close>\<close>

definition BEGIN :: string where "BEGIN = ''<|tool_call_begin|>''"
definition ARG_BEGIN :: string where "ARG_BEGIN = ''<|tool_call_argument_begin|>''"
definition END :: string where "END = ''<|tool_call_end|>''"

text \<open>The closure \<^verbatim>\<open>longestPartialPrefix\<close>: \<open>k\<close> counts down from
  \<^verbatim>\<open>Math.min(BEGIN.length - 1, data.length - 1)\<close> to 1.\<close>

fun partialPrefixFrom :: "string \<Rightarrow> nat \<Rightarrow> nat" where
  "partialPrefixFrom data 0 = 0"
| "partialPrefixFrom data (Suc k) =
     (if suffix (take (Suc k) BEGIN) data then Suc k else partialPrefixFrom data k)"

definition longestPartialPrefix :: "string \<Rightarrow> nat" where
  "longestPartialPrefix data =
     partialPrefixFrom data (min (length BEGIN - 1) (length data - 1))"

datatype delim = ArgDelim | EndDelim

text \<open>The choice between \<^verbatim>\<open>a = data.indexOf(ARG_BEGIN)\<close> and \<^verbatim>\<open>e = data.indexOf(END)\<close>:
  \<^verbatim>\<open>delimIdx\<close> and \<^verbatim>\<open>delimKind\<close>, or \<open>None\<close> when neither marker is there.\<close>

definition findDelimiter :: "string \<Rightarrow> (nat \<times> delim) option" where
  "findDelimiter data =
     (case (indexOf data ARG_BEGIN, indexOf data END) of
        (Some a, None) \<Rightarrow> Some (a, ArgDelim)
      | (Some a, Some e) \<Rightarrow> if a < e then Some (a, ArgDelim) else Some (e, EndDelim)
      | (None, Some e) \<Rightarrow> Some (e, EndDelim)
      | (None, None) \<Rightarrow> None)"

definition isHeaderChar :: "char \<Rightarrow> bool" where
  "isHeaderChar c = (isAlnum c \<or> c = CHR ''_'' \<or> c = CHR ''-'' \<or> c = CHR ''.'')"

text \<open>\<^verbatim>\<open>header.match(/^([A-Za-z0-9_\-.]+)(?::(\d+))?/)\<close>: the name \<^verbatim>\<open>m?.[1]\<close> and the index
  \<^verbatim>\<open>m?.[2] ? Number(m?.[2]) : undefined\<close>.\<close>

definition parseHeader :: "string \<Rightarrow> string option \<times> nat option" where
  "parseHeader header =
     (let name = takeWhile isHeaderChar header;
          rest = dropWhile isHeaderChar header
      in if name = [] then (None, None)
         else
           (case rest of
              [] \<Rightarrow> (Some name, None)
            | c # ds \<Rightarrow>
               (if c = CHR '':'' \<and> takeWhile isDigit ds \<noteq> []
                then (Some name, Some (natOfDigits (takeWhile isDigit ds)))
                else (Some name, None))))"

text \<open>
  One pass through the body of the \<^verbatim>\<open>while (data.length > 0)\<close> loop. The loop variables are
  \<^verbatim>\<open>data\<close>, \<^verbatim>\<open>visibleOut\<close> and \<^verbatim>\<open>emittedAny\<close>; \<open>Break\<close> is an exit by \<^verbatim>\<open>break\<close> and
  \<open>Continue\<close> an exit by \<^verbatim>\<open>continue\<close>.
\<close>

datatype loop_step =
    Break string string bool session
  | Continue string string bool session

text \<open>The branch \<^verbatim>\<open>if (!this._textToolActive)\<close>.\<close>

definition scanStep :: "string \<Rightarrow> string \<Rightarrow> bool \<Rightarrow> session \<Rightarrow> loop_step" where
  "scanStep data visibleOut emittedAny st =
     (case indexOf data BEGIN of
        None \<Rightarrow>
          (let k = longestPartialPrefix data
           in if 0 < k then
                (let visible = take (length data - k) data
                 in Break []
                      (if visible \<noteq> [] then visibleOut @ stripControlTokens visible else visibleOut)
                      emittedAny
                      (st\<lparr>textToolParserBuffer := drop (length data - k) data\<rparr>))
              else Break [] (visibleOut @ stripControlTokens data) emittedAny st)
      | Some b \<Rightarrow>
          (let pre = take b data;
               visibleOut1 = (if pre \<noteq> [] then visibleOut @ stripControlTokens pre else visibleOut);
               data1 = drop (b + length BEGIN) data
           in case findDelimiter data1 of
                None \<Rightarrow>
                  Break [] visibleOut1 emittedAny (st\<lparr>textToolParserBuffer := BEGIN @ data1\<rparr>)
              | Some (delimIdx, kind) \<Rightarrow>
                  (let header = trim (take delimIdx data1);
                       call = \<lparr>call_name = fst (parseHeader header),
                               call_index = snd (parseHeader header),
                               argBuffer = [], emitted = False\<rparr>;
                       st1 = st\<lparr>textToolActive := Some call\<rparr>
                   in case kind of
                        ArgDelim \<Rightarrow>
                          Continue (drop (delimIdx + length ARG_BEGIN) data1) visibleOut1 emittedAny st1
                      | EndDelim \<Rightarrow>
                          (let data2 = drop (delimIdx + length END) data1;
                               r = emitTextToolCallIfValid call ''{}'' st1
                           in Continue data2 visibleOut1 (emittedAny \<or> fst r)
                                ((snd r)\<lparr>textToolActive := None\<rparr>)))))"

text \<open>The rest of the body, with \<open>call\<close> the active inline call.\<close>

definition captureStep :: "text_tool \<Rightarrow> string \<Rightarrow> string \<Rightarrow> bool \<Rightarrow> session \<Rightarrow> loop_step" where
  "captureStep call data visibleOut emittedAny st =
     (case indexOf data END of
        None \<Rightarrow>
          (let call1 = call\<lparr>argBuffer := argBuffer call @ data\<rparr>;
               st1 = st\<lparr>textToolActive := Some call1\<rparr>
           in if \<not> emitted call1 then
                (let r = emitTextToolCallIfValid call1 (argBuffer call1) st1
                 in if fst r
                    then Break [] visibleOut True
                           ((snd r)\<lparr>textToolActive := Some (call1\<lparr>emitted := True\<rparr>)\<rparr>)
                    else Break [] visibleOut emittedAny (snd r))
              else Break [] visibleOut emittedAny st1)
      | Some e2 \<Rightarrow>
          (let call1 = call\<lparr>argBuffer := argBuffer call @ take e2 data\<rparr>;
               st1 = st\<lparr>textToolActive := Some call1\<rparr>;
               data1 = drop (e2 + length END) data
           in if \<not> emitted call1 then
                (let r = emitTextToolCallIfValid call1 (argBuffer call1) st1
                 in Continue data1 visibleOut (emittedAny \<or> fst r)
                      ((snd r)\<lparr>textToolActive := None\<rparr>))
              else Continue data1 visibleOut emittedAny (st1\<lparr>textToolActive := None\<rparr>)))"

definition loopBody :: "string \<Rightarrow> string \<Rightarrow> bool \<Rightarrow> session \<Rightarrow> loop_step" where
  "loopBody data visibleOut emittedAny st =
     (case textToolActive st of
        None \<Rightarrow> scanStep data visibleOut emittedAny st
      | Some call \<Rightarrow> captureStep call data visibleOut emittedAny st)"

lemma loopBody_shorter:
  "loopBody data v a st = Continue data' v' a' st' \<Longrightarrow> data \<noteq> [] \<Longrightarrow> length data' < length data"
  by (auto simp: loopBody_def scanStep_def captureStep_def Let_def BEGIN_def END_def
      split: option.splits if_splits prod.splits delim.splits)

text \<open>The loop: the values of \<^verbatim>\<open>data\<close>, \<^verbatim>\<open>visibleOut\<close> and \<^verbatim>\<open>emittedAny\<close> and the session
  when it is left.\<close>

function processTextLoop ::
  "string \<Rightarrow> string \<Rightarrow> bool \<Rightarrow> session \<Rightarrow> string \<times> string \<times> bool \<times> session" where
  "processTextLoop data visibleOut emittedAny st =
     (if data = [] then (data, visibleOut, emittedAny, st)
      else
        (case loopBody data visibleOut emittedAny st of
           Break d v a s \<Rightarrow> (d, v, a, s)
         | Continue d v a s \<Rightarrow> processTextLoop d v a s))"
  by pat_completeness auto
termination
  by (relation "measure (\<lambda>(data, v, a, st). length data)")
     (auto dest: loopBody_shorter)

declare processTextLoop.simps [simp del]

text \<open>\<^verbatim>\<open>processTextContent\<close> returns \<^verbatim>\<open>{ emittedText, emittedAny }\<close>.\<close>

definition processTextContent :: "string \<Rightarrow> session \<Rightarrow> (bool \<times> bool) \<times> session" where
  "processTextContent input st =
     (case processTextLoop (textToolParserBuffer st @ input) [] False st of
        (data, visibleOut, emittedAny, st1) \<Rightarrow>
          (if visibleOut \<noteq> []
           then ((True, True), (report (TextPart visibleOut) st1)\<lparr>textToolParserBuffer := data\<rparr>)
           else ((False, emittedAny), st1\<lparr>textToolParserBuffer := data\<rparr>)))"

subsection \<open>\<^verbatim>\<open>flushActiveTextToolCall\<close>\<close>

definition flushActiveTextToolCall :: "session \<Rightarrow> session" where
  "flushActiveTextToolCall st =
     (case textToolActive st of
        None \<Rightarrow> st
      | Some call \<Rightarrow>
         (case tryParseJSONObject (argBuffer call) of
            None \<Rightarrow> st
          | Some v \<Rightarrow>
             (snd (emitTextToolCallIfValid call (argBuffer call) st))\<lparr>textToolActive := None\<rparr>))"

subsection \<open>The structured channel\<close>

text \<open>\<^verbatim>\<open>buf.id ?? `call_${Math.random().toString(36).slice(2, 10)}`\<close>.\<close>

definition bufferedId :: "tool_buf \<Rightarrow> call_id" where
  "bufferedId buf = (case buf_id buf of None \<Rightarrow> FreshId ''call_'' | Some i \<Rightarrow> ServerId i)"

text \<open>\<^verbatim>\<open>tryEmitBufferedToolCall\<close>. A stored name is never the empty string, so
  \<^verbatim>\<open>!buf.name\<close> is the test for an absent name.\<close>

definition tryEmitBufferedToolCall :: "int \<Rightarrow> session \<Rightarrow> session" where
  "tryEmitBufferedToolCall idx st =
     (case map_of (toolCallBuffers st) idx of
        None \<Rightarrow> st
      | Some buf \<Rightarrow>
         (case buf_name buf of
            None \<Rightarrow> st
          | Some name \<Rightarrow>
             (if name = [] then st
              else
                (case tryParseJSONObject (buf_args buf) of
                   None \<Rightarrow> st
                 | Some parameters \<Rightarrow>
                    (let ident = bufferedId buf;
                         canonical = JSON_stringify parameters;
                         st1 = st\<lparr>emittedTextToolCallKeys :=
                                   insert (name @ '':'' @ canonical) (emittedTextToolCallKeys st)\<rparr>;
                         st2 = report (ToolCallPart ident name parameters) st1;
                         st3 = st2\<lparr>toolCallBuffers := AList.delete idx (toolCallBuffers st2)\<rparr>
                     in st3\<lparr>completedToolCallIndices := insert idx (completedToolCallIndices st3)\<rparr>)))))"

text \<open>The loop of \<^verbatim>\<open>flushToolCallBuffers\<close> over \<^verbatim>\<open>Array.from(this._toolCallBuffers.entries())\<close>.
  \<open>Some e\<close> in the result is the error thrown; the session is as the throw leaves it.\<close>

fun flushEntries :: "bool \<Rightarrow> (int \<times> tool_buf) list \<Rightarrow> session \<Rightarrow> error option \<times> session" where
  "flushEntries throwOnInvalid [] st = (None, st)"
| "flushEntries throwOnInvalid ((idx, buf) # rest) st =
     (case tryParseJSONObject (buf_args buf) of
        None \<Rightarrow>
          (if throwOnInvalid then (Some InvalidToolCallPayload, st)
           else flushEntries throwOnInvalid rest st)
      | Some v \<Rightarrow>
          (let ident = bufferedId buf;
               name = (case buf_name buf of None \<Rightarrow> ''unknown_tool'' | Some n \<Rightarrow> n);
               canonical = JSON_stringify v;
               st1 = st\<lparr>emittedTextToolCallKeys :=
                         insert (name @ '':'' @ canonical) (emittedTextToolCallKeys st)\<rparr>;
               st2 = report (ToolCallPart ident name v) st1;
               st3 = st2\<lparr>toolCallBuffers := AList.delete idx (toolCallBuffers st2)\<rparr>;
               st4 = st3\<lparr>completedToolCallIndices := insert idx (completedToolCallIndices st3)\<rparr>
           in flushEntries throwOnInvalid rest st4))"

definition flushToolCallBuffers :: "bool \<Rightarrow> session \<Rightarrow> error option \<times> session" where
  "flushToolCallBuffers throwOnInvalid st =
     (if toolCallBuffers st = [] then (None, st)
      else flushEntries throwOnInvalid (toolCallBuffers st) st)"

subsection \<open>\<^verbatim>\<open>processDelta\<close>\<close>

text \<open>
  What \<^verbatim>\<open>processDelta\<close> reads from a payload, field by field. \<open>None\<close> is an absent field.
  The function object of a tool-call fragment is flattened into \<open>fn_name\<close> and
  \<open>fn_arguments\<close>, the delta object into \<open>delta_thinking\<close>, \<open>content\<close> and \<open>tool_calls\<close>.
\<close>

datatype thinking =
    ThinkingObject "string option" "string option" "json option"
  | ThinkingString string
  | ThinkingOther

record tool_call_delta =
  tc_index :: "int option"
  tc_id :: "string option"
  fn_name :: "string option"
  fn_arguments :: "string option"

record choice =
  choice_thinking :: "thinking option"
  delta_thinking :: "thinking option"
  content :: "string option"
  tool_calls :: "tool_call_delta list option"
  finish_reason :: "string option"

text \<open>\<^verbatim>\<open>Math.ceil(text.length / 4)\<close>.\<close>

definition tokenEstimate :: "string \<Rightarrow> nat" where
  "tokenEstimate text = (length text + 3) div 4"

text \<open>The thinking part; \<open>host\<close> tells whether the host has
  \<^verbatim>\<open>LanguageModelThinkingPart\<close>. The result is the new value of \<^verbatim>\<open>emitted\<close>.\<close>

definition reportThinking :: "bool \<Rightarrow> choice \<Rightarrow> session \<Rightarrow> bool \<times> session" where
  "reportThinking host ch st =
     (case (case choice_thinking ch of Some t \<Rightarrow> Some t | None \<Rightarrow> delta_thinking ch) of
        None \<Rightarrow> (False, st)
      | Some maybeThinking \<Rightarrow>
         (if host then
            (case maybeThinking of
               ThinkingObject t i m \<Rightarrow>
                 (let text = (case t of None \<Rightarrow> [] | Some s \<Rightarrow> s)
                  in if text \<noteq> [] then (True, report (ThinkingPart text i m) st) else (False, st))
             | ThinkingString s \<Rightarrow>
                 (if s \<noteq> [] then (True, report (ThinkingPart s None None) st) else (False, st))
             | ThinkingOther \<Rightarrow> (False, st))
          else (False, st)))"

text \<open>The body of \<^verbatim>\<open>for (const tc of toolCalls)\<close>.\<close>

definition processToolCall :: "tool_call_delta \<Rightarrow> session \<Rightarrow> session" where
  "processToolCall tc st =
     (let idx = (case tc_index tc of None \<Rightarrow> 0 | Some i \<Rightarrow> i)
      in if idx \<in> completedToolCallIndices st then st
         else
           (let buf0 = (case map_of (toolCallBuffers st) idx of
                          None \<Rightarrow> \<lparr>buf_id = None, buf_name = None, buf_args = []\<rparr>
                        | Some b \<Rightarrow> b);
                buf1 = (case tc_id tc of
                          None \<Rightarrow> buf0
                        | Some i \<Rightarrow> if i \<noteq> [] then buf0\<lparr>buf_id := Some i\<rparr> else buf0);
                buf2 = (case fn_name tc of
                          None \<Rightarrow> buf1
                        | Some n \<Rightarrow> if n \<noteq> [] then buf1\<lparr>buf_name := Some n\<rparr> else buf1);
                buf3 = (case fn_arguments tc of
                          None \<Rightarrow> buf2
                        | Some a \<Rightarrow> buf2\<lparr>buf_args := buf_args buf2 @ a\<rparr>);
                st1 = (case fn_arguments tc of
                         None \<Rightarrow> st
                       | Some a \<Rightarrow> st\<lparr>outputTokenCount := outputTokenCount st + tokenEstimate a\<rparr>);
                st2 = st1\<lparr>toolCallBuffers := AList.update idx buf3 (toolCallBuffers st1)\<rparr>
            in tryEmitBufferedToolCall idx st2))"

fun processToolCalls :: "tool_call_delta list \<Rightarrow> session \<Rightarrow> session" where
  "processToolCalls [] st = st"
| "processToolCalls (tc # tcs) st = processToolCalls tcs (processToolCall tc st)"

text \<open>The part \<^verbatim>\<open>if (deltaObj?.content)\<close>, with the current value of \<^verbatim>\<open>emitted\<close>.\<close>

definition processContent :: "choice \<Rightarrow> bool \<Rightarrow> session \<Rightarrow> bool \<times> session" where
  "processContent ch em st =
     (case content ch of
        None \<Rightarrow> (em, st)
      | Some c \<Rightarrow>
         (if c = [] then (em, st)
          else
            (case processTextContent c st of
               ((emittedText, emittedAny), st1) \<Rightarrow>
                 (let st2 = (if emittedText then st1\<lparr>hasEmittedAssistantText := True\<rparr> else st1)
                  in (em \<or> emittedAny,
                      st2\<lparr>outputTokenCount := outputTokenCount st2 + tokenEstimate c\<rparr>)))))"

text \<open>The part \<^verbatim>\<open>if (deltaObj?.tool_calls)\<close>.\<close>

definition processToolCallsField :: "choice \<Rightarrow> session \<Rightarrow> session" where
  "processToolCallsField ch st =
     (case tool_calls ch of
        None \<Rightarrow> st
      | Some toolCalls \<Rightarrow>
         (let st1 = (if \<not> emittedBeginToolCallsHint st \<and> hasEmittedAssistantText st \<and> toolCalls \<noteq> []
                     then (report (TextPart '' '') st)\<lparr>emittedBeginToolCallsHint := True\<rparr>
                     else st)
          in processToolCalls toolCalls st1))"

text \<open>
  The result of a call that can throw: the value returned, or the error thrown. The
  session that comes with it holds every change made before the return or the throw.
\<close>

datatype 'a outcome = Returned 'a | Threw error

text \<open>The statements of \<^verbatim>\<open>processDelta\<close> between the test of \<^verbatim>\<open>choice\<close> and the read of
  \<^verbatim>\<open>finish_reason\<close>: thinking, content and tool-call fragments, in this order. The first
  component is the value of \<^verbatim>\<open>emitted\<close>.\<close>

definition deltaBody :: "bool \<Rightarrow> choice \<Rightarrow> session \<Rightarrow> bool \<times> session" where
  "deltaBody host ch st =
     (case reportThinking host ch st of
        (em1, st1) \<Rightarrow>
          (case processContent ch em1 st1 of
             (em2, st2) \<Rightarrow> (em2, processToolCallsField ch st2)))"

text \<open>\<^verbatim>\<open>processDelta\<close>; the argument is \<^verbatim>\<open>delta.choices?.[0]\<close>.\<close>

definition processDelta :: "bool \<Rightarrow> choice option \<Rightarrow> session \<Rightarrow> bool outcome \<times> session" where
  "processDelta host choice0 st =
     (case choice0 of
        None \<Rightarrow> (Returned False, st)
      | Some ch \<Rightarrow>
         (case deltaBody host ch st of
            (em, st3) \<Rightarrow>
              (if finish_reason ch = Some ''tool_calls'' \<or> finish_reason ch = Some ''stop''
               then
                 (case flushToolCallBuffers True st3 of
                    (Some e, st4) \<Rightarrow> (Threw e, st4)
                  | (None, st4) \<Rightarrow> (Returned em, st4))
               else (Returned em, st3))))"

subsection \<open>Reading a payload\<close>

text \<open>
  \<^verbatim>\<open>processDelta\<close> is handed the result of \<^verbatim>\<open>JSON.parse\<close> and probes it for the fields it
  uses. \<open>decodeChoice\<close> is that probing for payloads whose fields have the types the source
  casts them to; a field of another type is read as absent.
\<close>

definition field :: "string \<Rightarrow> json \<Rightarrow> json option" where
  "field k j = (case j of JObj ms \<Rightarrow> map_of ms k | _ \<Rightarrow> None)"

definition stringField :: "string \<Rightarrow> json \<Rightarrow> string option" where
  "stringField k j = (case field k j of Some (JStr s) \<Rightarrow> Some s | _ \<Rightarrow> None)"

definition decodeThinking :: "json option \<Rightarrow> thinking option" where
  "decodeThinking j =
     (case j of
        None \<Rightarrow> None
      | Some JNull \<Rightarrow> None
      | Some (JObj ms) \<Rightarrow>
          Some (ThinkingObject (stringField ''text'' (JObj ms)) (stringField ''id'' (JObj ms))
                  (field ''metadata'' (JObj ms)))
      | Some (JArr xs) \<Rightarrow> Some (ThinkingObject None None None)
      | Some (JStr s) \<Rightarrow> Some (ThinkingString s)
      | Some _ \<Rightarrow> Some ThinkingOther)"

definition decodeToolCall :: "json \<Rightarrow> tool_call_delta" where
  "decodeToolCall tc =
     \<lparr>tc_index = (case field ''index'' tc of
                    Some (JNum m e) \<Rightarrow> if 0 \<le> e then Some (m * 10 ^ nat e) else None
                  | _ \<Rightarrow> None),
      tc_id = stringField ''id'' tc,
      fn_name = (case field ''function'' tc of None \<Rightarrow> None | Some f \<Rightarrow> stringField ''name'' f),
      fn_arguments =
        (case field ''function'' tc of None \<Rightarrow> None | Some f \<Rightarrow> stringField ''arguments'' f)\<rparr>"

definition truthy :: "json \<Rightarrow> bool" where
  "truthy j = (j \<noteq> JNull \<and> j \<noteq> JBool False \<and> j \<noteq> JNum 0 0 \<and> j \<noteq> JStr [])"

definition decodeChoice :: "json \<Rightarrow> choice option" where
  "decodeChoice payload =
     (case field ''choices'' payload of
        Some (JArr (ch # rest)) \<Rightarrow>
          (if truthy ch then
             (let d = (case field ''delta'' ch of None \<Rightarrow> JNull | Some x \<Rightarrow> x)
              in Some \<lparr>choice_thinking = decodeThinking (field ''thinking'' ch),
                       delta_thinking = decodeThinking (field ''thinking'' d),
                       content = stringField ''content'' d,
                       tool_calls = (case field ''tool_calls'' d of
                                       Some (JArr tcs) \<Rightarrow> Some (map decodeToolCall tcs)
                                     | _ \<Rightarrow> None),
                       finish_reason = stringField ''finish_reason'' ch\<rparr>)
           else None)
      | _ \<Rightarrow> None)"

subsection \<open>\<^verbatim>\<open>processStreamingResponse\<close>\<close>

text \<open>\<^verbatim>\<open>buffer.split("\n")\<close>: never the empty list.\<close>

fun splitLines :: "string \<Rightarrow> string list" where
  "splitLines [] = [[]]"
| "splitLines (c # cs) =
     (if c = CHR 0x0A then [] # splitLines cs
      else (case splitLines cs of l # ls \<Rightarrow> (c # l) # ls | [] \<Rightarrow> [[c]]))"

text \<open>
  The body of \<^verbatim>\<open>for (const line of lines)\<close>. The \<^verbatim>\<open>catch\<close> block is empty: whatever
  \<^verbatim>\<open>JSON.parse\<close> or \<^verbatim>\<open>processDelta\<close> throws ends the handling of the line, and the
  session stays as the throw left it.
\<close>

definition processLine :: "bool \<Rightarrow> string \<Rightarrow> session \<Rightarrow> session" where
  "processLine host line st =
     (if \<not> prefix ''data: '' line then st
      else
        (let data = drop 6 line
         in if data = ''[DONE]''
            then flushActiveTextToolCall (snd (flushToolCallBuffers False st))
            else
              (case JSON_parse data of
                 None \<Rightarrow> st
               | Some parsed \<Rightarrow> snd (processDelta host (decodeChoice parsed) st))))"

fun processLines :: "bool \<Rightarrow> string list \<Rightarrow> session \<Rightarrow> session" where
  "processLines host [] st = st"
| "processLines host (l # ls) st = processLines host ls (processLine host l st)"

text \<open>
  What one pass through the head of the read loop meets: the token is cancelled, the
  \<^verbatim>\<open>read\<close> rejects, or a chunk arrives. The end of the list is \<^verbatim>\<open>done\<close>. The bytes of a
  chunk are the characters the decoder yields for it.
\<close>

datatype pass = Cancelled | Rejected | Chunk string

fun readLoop :: "bool \<Rightarrow> pass list \<Rightarrow> string \<Rightarrow> session \<Rightarrow> error option \<times> session" where
  "readLoop host [] buffer st = (None, st)"
| "readLoop host (Cancelled # ps) buffer st = (None, st)"
| "readLoop host (Rejected # ps) buffer st = (Some ReadFailed, st)"
| "readLoop host (Chunk v # ps) buffer st =
     (let lines = splitLines (buffer @ v)
      in readLoop host ps (last lines) (processLines host (butlast lines) st))"

text \<open>The \<^verbatim>\<open>finally\<close> block.\<close>

definition finallyReset :: "session \<Rightarrow> session" where
  "finallyReset st =
     st\<lparr>toolCallBuffers := [], completedToolCallIndices := {},
        hasEmittedAssistantText := False, emittedBeginToolCallsHint := False,
        textToolParserBuffer := [], textToolActive := None,
        emittedTextToolCallKeys := {}\<rparr>"

definition processStreamingResponse :: "bool \<Rightarrow> pass list \<Rightarrow> session \<Rightarrow> error option \<times> session" where
  "processStreamingResponse host stream st =
     (case readLoop host stream [] st of (e, st1) \<Rightarrow> (e, finallyReset st1))"

text \<open>The assignments at the head of \<^verbatim>\<open>provideLanguageModelChatResponse\<close>.\<close>

definition requestReset :: "session \<Rightarrow> session" where
  "requestReset st =
     st\<lparr>toolCallBuffers := [], completedToolCallIndices := {},
        hasEmittedAssistantText := False, emittedBeginToolCallsHint := False,
        textToolParserBuffer := [], textToolActive := None,
        emittedTextToolCallKeys := {}, emittedTextToolCallIds := {},
        outputTokenCount := 0\<rparr>"

section \<open>Inputs of the scenarios\<close>

text \<open>A payload with one tool-call fragment, a payload with only a terminal marker, and a
  payload with only text.\<close>

definition fragment :: "int \<Rightarrow> string option \<Rightarrow> string \<Rightarrow> choice" where
  "fragment i n a =
     \<lparr>choice_thinking = None, delta_thinking = None, content = None,
      tool_calls = Some [\<lparr>tc_index = Some i, tc_id = None, fn_name = n, fn_arguments = Some a\<rparr>],
      finish_reason = None\<rparr>"

definition terminal :: "string \<Rightarrow> choice" where
  "terminal r =
     \<lparr>choice_thinking = None, delta_thinking = None, content = None,
      tool_calls = None, finish_reason = Some r\<rparr>"

definition textDelta :: "string \<Rightarrow> choice" where
  "textDelta t =
     \<lparr>choice_thinking = None, delta_thinking = None, content = Some t,
      tool_calls = None, finish_reason = None\<rparr>"

text \<open>Text fragments delivered one after the other to \<^verbatim>\<open>processTextContent\<close>.\<close>

fun feed :: "string list \<Rightarrow> session \<Rightarrow> session" where
  "feed [] st = st"
| "feed (c # cs) st = feed cs (snd (processTextContent c st))"

section \<open>Notions used in the statements\<close>

text \<open>The name and the part that \<^verbatim>\<open>flushToolCallBuffers\<close> gives to a pending entry, and the
  parts it reports for a list of entries when it does not throw.\<close>

definition flushName :: "tool_buf \<Rightarrow> string" where
  "flushName buf = (case buf_name buf of None \<Rightarrow> ''unknown_tool'' | Some n \<Rightarrow> n)"

definition flushedPart :: "tool_buf \<Rightarrow> part option" where
  "flushedPart buf =
     map_option (ToolCallPart (bufferedId buf) (flushName buf)) (tryParseJSONObject (buf_args buf))"

definition flushedParts :: "(int \<times> tool_buf) list \<Rightarrow> part list" where
  "flushedParts es = List.map_filter (\<lambda>(i, b). flushedPart b) es"

text \<open>Some pending entry has argument text that does not parse as a JSON object.\<close>

definition unparseable :: "(int \<times> tool_buf) list \<Rightarrow> bool" where
  "unparseable es = list_ex (\<lambda>(i, b). tryParseJSONObject (buf_args b) = None) es"

text \<open>The text part reported for the visible text \<open>t\<close>: none when \<open>t\<close> is empty.\<close>

definition textParts :: "string \<Rightarrow> part list" where
  "textParts t = (if t = [] then [] else [TextPart t])"

text \<open>The dedup key \<^verbatim>\<open>`${name}:${canonical}`\<close> of a call.\<close>

definition callKey :: "string \<Rightarrow> json \<Rightarrow> string" where
  "callKey name v = name @ '':'' @ JSON_stringify v"

text \<open>An entry of the sink is \<open>registered\<close> when it is not a tool call, or the key of the
  call was in the registry when the call was reported.\<close>

definition registered :: "part \<times> string set \<Rightarrow> bool" where
  "registered e =
     (case fst e of
        ToolCallPart i n v \<Rightarrow> callKey n v \<in> snd e
      | _ \<Rightarrow> True)"

text \<open>Every entry of the sink is registered, and the registry has lost no key since.\<close>

definition keysBeforeReports :: "session \<Rightarrow> bool" where
  "keysBeforeReports st =
     list_all (\<lambda>e. snd e \<subseteq> emittedTextToolCallKeys st \<and> registered e) (reported st)"

text \<open>From \<open>st\<close> to \<open>st'\<close> the registry has only grown, and the sink has only new entries
  at its end, each of them registered.\<close>

definition grows :: "session \<Rightarrow> session \<Rightarrow> bool" where
  "grows st st' =
     (emittedTextToolCallKeys st \<subseteq> emittedTextToolCallKeys st' \<and>
      take (length (reported st)) (reported st') = reported st \<and>
      list_all (\<lambda>e. snd e \<subseteq> emittedTextToolCallKeys st' \<and> registered e)
        (drop (length (reported st)) (reported st')))"

text \<open>The call that the header \<open>hdr\<close> opens.\<close>

definition headerCall :: "string \<Rightarrow> text_tool" where
  "headerCall hdr =
     \<lparr>call_name = fst (parseHeader (trim hdr)), call_index = snd (parseHeader (trim hdr)),
      argBuffer = [], emitted = False\<rparr>"

text \<open>Two exits of the loop body that differ at most in the flag \<^verbatim>\<open>emittedAny\<close>.\<close>

definition sameButFlag :: "loop_step \<Rightarrow> loop_step \<Rightarrow> bool" where
  "sameButFlag x y =
     (case x of
        Break d v a s \<Rightarrow> (case y of Break d' v' a' s' \<Rightarrow> d = d' \<and> v = v' \<and> s = s' | _ \<Rightarrow> False)
      | Continue d v a s \<Rightarrow>
          (case y of Continue d' v' a' s' \<Rightarrow> d = d' \<and> v = v' \<and> s = s' | _ \<Rightarrow> False))"

text \<open>The session after \<^verbatim>\<open>processTextContent\<close>, from the result of the loop.\<close>

definition afterLoop :: "string \<times> string \<times> bool \<times> session \<Rightarrow> session" where
  "afterLoop r =
     (if fst (snd r) \<noteq> []
      then (report (TextPart (fst (snd r))) (snd (snd (snd r))))\<lparr>textToolParserBuffer := fst r\<rparr>
      else (snd (snd (snd r)))\<lparr>textToolParserBuffer := fst r\<rparr>)"

text \<open>The session at the exit of a pass through the loop body.\<close>

definition stepState :: "loop_step \<Rightarrow> session" where
  "stepState x = (case x of Break d v a s \<Rightarrow> s | Continue d v a s \<Rightarrow> s)"

section \<open>The sink and the structured flush\<close>

lemma events_report [simp]: "events (report p st) = events st @ [p]"
  by (simp add: events_def report_def)

lemma events_update [simp]:
  "events (st\<lparr>toolCallBuffers := x1\<rparr>) = events st"
  "events (st\<lparr>completedToolCallIndices := x2\<rparr>) = events st"
  "events (st\<lparr>hasEmittedAssistantText := x3\<rparr>) = events st"
  "events (st\<lparr>emittedBeginToolCallsHint := x4\<rparr>) = events st"
  "events (st\<lparr>textToolParserBuffer := x5\<rparr>) = events st"
  "events (st\<lparr>textToolActive := x6\<rparr>) = events st"
  "events (st\<lparr>emittedTextToolCallKeys := x7\<rparr>) = events st"
  "events (st\<lparr>emittedTextToolCallIds := x8\<rparr>) = events st"
  "events (st\<lparr>outputTokenCount := x9\<rparr>) = events st"
  by (simp_all add: events_def)

text \<open>Without \<^verbatim>\<open>throwOnInvalid\<close> the flush never throws and reports exactly the entries that
  parse, in the order of the map.\<close>

lemma flushEntries_quiet:
  "fst (flushEntries False es st) = None \<and>
   events (snd (flushEntries False es st)) = events st @ flushedParts es"
proof (induction es arbitrary: st)
  case Nil
  show ?case by (simp add: flushedParts_def List.map_filter_simps)
next
  case (Cons e es)
  obtain i b where e: "e = (i, b)" by (cases e)
  show ?case
  proof (cases "tryParseJSONObject (buf_args b)")
    case None
    with Cons.IH [of st] show ?thesis
      by (simp add: e flushedParts_def flushedPart_def List.map_filter_simps)
  next
    case (Some v)
    then show ?thesis
      using Cons.IH
      by (simp add: e flushedParts_def flushedPart_def flushName_def List.map_filter_simps Let_def)
  qed
qed

lemma flushToolCallBuffers_quiet:
  "fst (flushToolCallBuffers False st) = None \<and>
   events (snd (flushToolCallBuffers False st)) = events st @ flushedParts (toolCallBuffers st)"
  using flushEntries_quiet [of "toolCallBuffers st" st]
  by (simp add: flushToolCallBuffers_def flushedParts_def List.map_filter_simps)

text \<open>With \<^verbatim>\<open>throwOnInvalid\<close> it throws exactly when some entry does not parse.\<close>

lemma flushEntries_throws:
  "(fst (flushEntries True es st) = Some InvalidToolCallPayload) = unparseable es"
  "(fst (flushEntries True es st) = None) = (\<not> unparseable es)"
proof (induction es arbitrary: st)
  case Nil
  { case 1 show ?case by (simp add: unparseable_def) }
  { case 2 show ?case by (simp add: unparseable_def) }
next
  case (Cons e es)
  obtain i b where e: "e = (i, b)" by (cases e)
  { case 1 show ?case using Cons.IH(1)
      by (cases "tryParseJSONObject (buf_args b)") (simp_all add: e unparseable_def Let_def) }
  { case 2 show ?case using Cons.IH(2)
      by (cases "tryParseJSONObject (buf_args b)") (simp_all add: e unparseable_def Let_def) }
qed

lemma flushToolCallBuffers_throws:
  "(fst (flushToolCallBuffers True st) = Some InvalidToolCallPayload) = unparseable (toolCallBuffers st)"
  "(fst (flushToolCallBuffers True st) = None) = (\<not> unparseable (toolCallBuffers st))"
  by (simp_all add: flushToolCallBuffers_def flushEntries_throws unparseable_def)

lemma flushEntries_all_parse:
  "\<not> unparseable es \<Longrightarrow> flushEntries True es st = flushEntries False es st"
proof (induction es arbitrary: st)
  case Nil
  show ?case by simp
next
  case (Cons e es)
  obtain i b where e: "e = (i, b)" by (cases e)
  from Cons.prems have "\<not> unparseable es" and "tryParseJSONObject (buf_args b) \<noteq> None"
    by (auto simp: unparseable_def e)
  with Cons.IH show ?case
    by (auto simp: e Let_def)
qed

lemma processDelta_throws_iff:
  "(\<exists>e. fst (processDelta host (Some ch) st) = Threw e) =
     ((finish_reason ch = Some ''tool_calls'' \<or> finish_reason ch = Some ''stop'') \<and>
      unparseable (toolCallBuffers (snd (deltaBody host ch st))))"
proof -
  obtain em st3 where b: "deltaBody host ch st = (em, st3)" by (cases "deltaBody host ch st")
  obtain r st4 where f: "flushToolCallBuffers True st3 = (r, st4)"
    by (cases "flushToolCallBuffers True st3")
  have "(r = None) = (\<not> unparseable (toolCallBuffers st3))"
    using flushToolCallBuffers_throws(2) [of st3] f by simp
  then show ?thesis
    by (auto simp: processDelta_def b f)
qed

lemma processDelta_throws_only:
  "fst (processDelta host c st) = Threw e \<Longrightarrow> e = InvalidToolCallPayload"
proof (cases c)
  case None
  assume "fst (processDelta host c st) = Threw e"
  with None show ?thesis by (simp add: processDelta_def)
next
  case (Some ch)
  assume t: "fst (processDelta host c st) = Threw e"
  obtain em st3 where b: "deltaBody host ch st = (em, st3)" by (cases "deltaBody host ch st")
  obtain r st4 where f: "flushToolCallBuffers True st3 = (r, st4)"
    by (cases "flushToolCallBuffers True st3")
  have "r = None \<or> r = Some InvalidToolCallPayload"
    using flushToolCallBuffers_throws [of st3] f
    by (cases "unparseable (toolCallBuffers st3)") simp_all
  with t show ?thesis
    by (auto simp: processDelta_def Some b f split: if_splits)
qed

text \<open>A pending entry without a name is left alone by the per-fragment step.\<close>

lemma tryEmit_nameless:
  "map_of (toolCallBuffers st) idx = Some b \<Longrightarrow> buf_name b = None \<Longrightarrow>
   tryEmitBufferedToolCall idx st = st"
  by (simp add: tryEmitBufferedToolCall_def)

lemma processToolCall_nameless:
  assumes n: "fn_name tc = None \<or> fn_name tc = Some []"
    and b: "case map_of (toolCallBuffers st) (case tc_index tc of None \<Rightarrow> 0 | Some i \<Rightarrow> i) of
              None \<Rightarrow> True | Some b \<Rightarrow> buf_name b = None"
  shows "reported (processToolCall tc st) = reported st"
proof -
  define idx where "idx = (case tc_index tc of None \<Rightarrow> 0 | Some i \<Rightarrow> i)"
  show ?thesis
  proof (cases "idx \<in> completedToolCallIndices st")
    case True
    then show ?thesis by (simp add: processToolCall_def idx_def)
  next
    case False
    then show ?thesis
      using n b
      by (auto simp: processToolCall_def idx_def [symmetric] Let_def tryEmitBufferedToolCall_def
          update_conv' split: option.splits)
  qed
qed

lemma flushedParts_mem:
  "(i, b) \<in> set es \<Longrightarrow> tryParseJSONObject (buf_args b) = Some v \<Longrightarrow>
   ToolCallPart (bufferedId b) (flushName b) v \<in> set (flushedParts es)"
  by (induction es)
     (auto simp: flushedParts_def flushedPart_def List.map_filter_simps split: option.splits)

section \<open>The loop of \<^verbatim>\<open>processTextContent\<close>\<close>

lemma stripControlTokens_Nil [simp]: "stripControlTokens [] = []"
  by (simp add: stripControlTokens_def)

lemma loopBody_Break_data:
  "loopBody d v a st = Break d' v' a' st' \<Longrightarrow> d' = []"
  by (auto simp: loopBody_def scanStep_def captureStep_def Let_def
      split: option.splits if_splits prod.splits delim.splits)

lemma processTextLoop_step:
  "data \<noteq> [] \<Longrightarrow>
   processTextLoop data v a st =
     (case loopBody data v a st of
        Break d v' a' s \<Rightarrow> (d, v', a', s)
      | Continue d v' a' s \<Rightarrow> processTextLoop d v' a' s)"
  by (subst processTextLoop.simps) simp

lemma processTextLoop_Nil [simp]: "processTextLoop [] v a st = ([], v, a, st)"
  by (subst processTextLoop.simps) simp

lemma processTextLoop_data: "fst (processTextLoop d v a st) = []"
proof (induction d v a st rule: processTextLoop.induct)
  case (1 d v a st)
  show ?case
  proof (cases "d = []")
    case True
    then show ?thesis by simp
  next
    case False
    show ?thesis
    proof (cases "loopBody d v a st")
      case (Break d' v' a' s')
      with False show ?thesis
        by (simp add: processTextLoop_step loopBody_Break_data)
    next
      case (Continue d' v' a' s')
      with False "1.IH" [OF False Continue] show ?thesis
        by (simp add: processTextLoop_step)
    qed
  qed
qed

lemma processTextContent_buffer:
  "textToolParserBuffer (snd (processTextContent input st)) = []"
proof -
  obtain d v a s where r: "processTextLoop (textToolParserBuffer st @ input) [] False st = (d, v, a, s)"
    by (cases "processTextLoop (textToolParserBuffer st @ input) [] False st") auto
  with processTextLoop_data [of "textToolParserBuffer st @ input" "[]" False st] have "d = []"
    by simp
  with r show ?thesis
    by (simp add: processTextContent_def)
qed

lemma partialPrefixFrom_le: "partialPrefixFrom data k \<le> k"
  by (induction k) auto

lemma longestPartialPrefix_less: "longestPartialPrefix data < length BEGIN"
proof -
  have "longestPartialPrefix data \<le> length BEGIN - 1"
    unfolding longestPartialPrefix_def
    by (rule le_trans [OF partialPrefixFrom_le]) simp
  then show ?thesis by (simp add: BEGIN_def)
qed

lemma loop_scan_no_begin:
  assumes "textToolActive st = None" and "data \<noteq> []" and "indexOf data BEGIN = None"
  shows "\<exists>s. processTextLoop data v a st
           = ([], v @ stripControlTokens (take (length data - longestPartialPrefix data) data), a, s)
         \<and> reported s = reported st \<and> emittedTextToolCallKeys s = emittedTextToolCallKeys st"
proof -
  define k where "k = longestPartialPrefix data"
  define visible where "visible = take (length data - k) data"
  have v: "(if visible \<noteq> [] then v @ stripControlTokens visible else v) = v @ stripControlTokens visible"
    by simp
  show ?thesis
  proof (cases "0 < k")
    case True
    with assms v show ?thesis
      unfolding k_def [symmetric] visible_def [symmetric]
      by (simp add: processTextLoop_step loopBody_def scanStep_def Let_def k_def [symmetric]
          visible_def [symmetric])
  next
    case False
    with assms have "visible = data" by (simp add: visible_def)
    with False assms show ?thesis
      unfolding k_def [symmetric] visible_def [symmetric]
      by (simp add: processTextLoop_step loopBody_def scanStep_def Let_def k_def [symmetric])
  qed
qed

lemma loop_scan_begin_no_delimiter:
  assumes "textToolActive st = None" and "indexOf data BEGIN = Some b"
    and "findDelimiter (drop (b + length BEGIN) data) = None"
  shows "\<exists>s. processTextLoop data v a st = ([], v @ stripControlTokens (take b data), a, s)
         \<and> reported s = reported st \<and> emittedTextToolCallKeys s = emittedTextToolCallKeys st"
proof -
  from assms(2) have ne: "data \<noteq> []"
    by (auto simp: BEGIN_def)
  define pre where "pre = take b data"
  have v: "(if pre \<noteq> [] then v @ stripControlTokens pre else v) = v @ stripControlTokens pre"
    by simp
  from assms ne v show ?thesis
    unfolding pre_def [symmetric]
    by (simp add: processTextLoop_step loopBody_def scanStep_def Let_def pre_def [symmetric])
qed

lemma processTextContent_events:
  assumes "processTextLoop (textToolParserBuffer st @ input) [] False st = (d, v, a, s)"
    and "reported s = reported st"
  shows "events (snd (processTextContent input st)) = events st @ textParts v"
  using assms by (simp add: processTextContent_def textParts_def events_def report_def)

lemma scan_no_begin:
  assumes "textToolActive st = None" and "textToolParserBuffer st @ input \<noteq> []"
    and "indexOf (textToolParserBuffer st @ input) BEGIN = None"
  shows "events (snd (processTextContent input st))
         = events st @ textParts (stripControlTokens
             (take (length (textToolParserBuffer st @ input)
                      - longestPartialPrefix (textToolParserBuffer st @ input))
                (textToolParserBuffer st @ input)))"
proof -
  define data where "data = textToolParserBuffer st @ input"
  from loop_scan_no_begin [OF assms(1) assms(2) assms(3), of "[]" False]
  obtain s where "processTextLoop data [] False st
      = ([], stripControlTokens (take (length data - longestPartialPrefix data) data), False, s)"
    and "reported s = reported st"
    unfolding data_def by auto
  then show ?thesis
    unfolding data_def by (rule processTextContent_events)
qed

lemma scan_begin_no_delimiter:
  assumes "textToolActive st = None"
    and "indexOf (textToolParserBuffer st @ input) BEGIN = Some b"
    and "findDelimiter (drop (b + length BEGIN) (textToolParserBuffer st @ input)) = None"
  shows "events (snd (processTextContent input st))
         = events st @ textParts (stripControlTokens (take b (textToolParserBuffer st @ input)))"
proof -
  define data where "data = textToolParserBuffer st @ input"
  from loop_scan_begin_no_delimiter [OF assms(1) assms(2) assms(3), of "[]" False]
  obtain s where "processTextLoop data [] False st
      = ([], stripControlTokens (take b data), False, s)"
    and "reported s = reported st"
    unfolding data_def by auto
  then show ?thesis
    unfolding data_def by (rule processTextContent_events)
qed

section \<open>Inline calls across chunks\<close>

lemma indexOf_at_head: "indexOf (m @ x) m = Some 0"
proof (cases "m @ x")
  case Nil
  then show ?thesis by simp
next
  case (Cons c cs)
  have "prefix m (m @ x)" by simp
  with Cons have "prefix m (c # cs)" by simp
  with Cons show ?thesis by simp
qed

lemma indexOf_skip:
  "c \<notin> set h \<Longrightarrow> indexOf (h @ x) (c # m) = map_option (\<lambda>i. length h + i) (indexOf x (c # m))"
proof (induction h)
  case Nil
  show ?case by (simp add: option.map_ident)
next
  case (Cons a h)
  then show ?case
    by (simp add: option.map_comp comp_def)
qed

lemma indexOf_drop:
  "indexOf (a @ s) m = Some (length a + n) \<Longrightarrow> indexOf s m = Some n"
proof (induction a)
  case Nil
  then show ?case by simp
next
  case (Cons c a)
  then show ?case
    by (auto split: if_splits)
qed

lemma indexOf_before:
  "indexOf (a @ s) m = Some (length a + n) \<Longrightarrow> m \<noteq> [] \<Longrightarrow> indexOf a m = None"
proof (induction a)
  case Nil
  then show ?case by simp
next
  case (Cons c a)
  from Cons.prems(1) have np: "\<not> prefix m (c # a @ s)" and r: "indexOf (a @ s) m = Some (length a + n)"
    by (auto split: if_splits)
  from np have "\<not> prefix m (c # a)"
    using prefix_prefix [of m "c # a" s] by auto
  with Cons.IH [OF r Cons.prems(2)] show ?case by simp
qed

lemma indexOf_Some_nonempty: "indexOf data m = Some e \<Longrightarrow> m \<noteq> [] \<Longrightarrow> data \<noteq> []"
  by (cases data) auto

lemma findDelimiter_header:
  assumes "CHR ''<'' \<notin> set hdr"
  shows "findDelimiter (hdr @ ARG_BEGIN @ y) = Some (length hdr, ArgDelim)"
proof -
  have a: "indexOf (hdr @ ARG_BEGIN @ y) ARG_BEGIN = Some (length hdr)"
    using indexOf_skip [OF assms, of "ARG_BEGIN @ y" "tl ARG_BEGIN"] indexOf_at_head [of ARG_BEGIN y]
    by (simp add: ARG_BEGIN_def)
  have "\<not> prefix END (ARG_BEGIN @ y)"
    by (simp add: END_def ARG_BEGIN_def)
  then have "indexOf (ARG_BEGIN @ y) END = None \<or> (\<exists>k. indexOf (ARG_BEGIN @ y) END = Some (Suc k))"
    by (cases "indexOf (tl (ARG_BEGIN @ y)) END") (auto simp: ARG_BEGIN_def)
  moreover have "indexOf (hdr @ ARG_BEGIN @ y) END
      = map_option (\<lambda>i. length hdr + i) (indexOf (ARG_BEGIN @ y) END)"
    using indexOf_skip [OF assms, of "ARG_BEGIN @ y" "tl END"] by (simp add: END_def)
  ultimately have "indexOf (hdr @ ARG_BEGIN @ y) END = None
      \<or> (\<exists>k. indexOf (hdr @ ARG_BEGIN @ y) END = Some (length hdr + Suc k))"
    by auto
  with a show ?thesis
    by (auto simp: findDelimiter_def)
qed

lemma loop_scan_to_capture:
  assumes "textToolActive st = None" and "CHR ''<'' \<notin> set hdr"
  shows "processTextLoop (BEGIN @ hdr @ ARG_BEGIN @ y) v a st
         = processTextLoop y v a (st\<lparr>textToolActive := Some (headerCall hdr)\<rparr>)"
proof -
  have ne: "BEGIN @ hdr @ ARG_BEGIN @ y \<noteq> []" by (simp add: BEGIN_def)
  have i: "indexOf (BEGIN @ hdr @ ARG_BEGIN @ y) BEGIN = Some 0" by (rule indexOf_at_head)
  have d: "findDelimiter (hdr @ ARG_BEGIN @ y) = Some (length hdr, ArgDelim)"
    using assms(2) by (rule findDelimiter_header)
  show ?thesis
    using assms(1)
    by (simp add: processTextLoop_step [OF ne] loopBody_def scanStep_def i d Let_def headerCall_def)
qed

lemma emit_unparsed:
  "tryParseJSONObject t = None \<Longrightarrow> emitTextToolCallIfValid c t st = (False, st)"
  by (simp add: emitTextToolCallIfValid_def)

lemma loop_capture_end:
  assumes "textToolActive st = Some call" and "\<not> emitted call" and "indexOf data END = Some e"
  shows "processTextLoop data v a st
         = processTextLoop (drop (e + length END) data) v
             (a \<or> fst (emitTextToolCallIfValid (call\<lparr>argBuffer := argBuffer call @ take e data\<rparr>)
                        (argBuffer call @ take e data)
                        (st\<lparr>textToolActive := Some (call\<lparr>argBuffer := argBuffer call @ take e data\<rparr>)\<rparr>)))
             ((snd (emitTextToolCallIfValid (call\<lparr>argBuffer := argBuffer call @ take e data\<rparr>)
                        (argBuffer call @ take e data)
                        (st\<lparr>textToolActive := Some (call\<lparr>argBuffer := argBuffer call @ take e data\<rparr>)\<rparr>)))
                \<lparr>textToolActive := None\<rparr>)"
proof -
  have ne: "data \<noteq> []"
    using assms(3) by (rule indexOf_Some_nonempty) (simp add: END_def)
  show ?thesis
    using assms
    by (simp add: processTextLoop_step [OF ne] loopBody_def captureStep_def Let_def)
qed

lemma loop_capture_wait:
  assumes "textToolActive st = Some call" and "\<not> emitted call" and "data \<noteq> []"
    and "indexOf data END = None" and "tryParseJSONObject (argBuffer call @ data) = None"
  shows "processTextLoop data v a st
         = ([], v, a, st\<lparr>textToolActive := Some (call\<lparr>argBuffer := argBuffer call @ data\<rparr>)\<rparr>)"
  using assms
  by (simp add: processTextLoop_step loopBody_def captureStep_def Let_def emit_unparsed)


lemma session_active_None: "textToolActive st = None \<Longrightarrow> st\<lparr>textToolActive := None\<rparr> = st"
  by simp

lemma malformed_from_scanning:
  assumes b: "textToolParserBuffer st = []" and a: "textToolActive st = None"
    and h: "CHR ''<'' \<notin> set hdr"
    and e: "indexOf (args @ END @ rest) END = Some (length args)"
    and p: "tryParseJSONObject args = None"
  shows "processTextContent (BEGIN @ hdr @ ARG_BEGIN @ args @ END @ rest) st
         = processTextContent rest st"
proof -
  define st1 where "st1 = st\<lparr>textToolActive := Some (headerCall hdr)\<rparr>"
  have a1: "textToolActive st1 = Some (headerCall hdr)" by (simp add: st1_def)
  have ne: "\<not> emitted (headerCall hdr)" by (simp add: headerCall_def)
  have ab: "argBuffer (headerCall hdr) = []" by (simp add: headerCall_def)
  have restore: "st1\<lparr>textToolActive := None\<rparr> = st"
    using a by (simp add: st1_def)
  have "processTextLoop (BEGIN @ hdr @ ARG_BEGIN @ args @ END @ rest) [] False st
        = processTextLoop (args @ END @ rest) [] False st1"
    unfolding st1_def using a h by (rule loop_scan_to_capture)
  also have "\<dots> = processTextLoop rest [] False st"
    using loop_capture_end [OF a1 ne e, of "[]" False] p
    by (simp add: ab emit_unparsed restore)
  finally show ?thesis
    by (simp add: processTextContent_def b)
qed

lemma malformed_from_capture:
  assumes b: "textToolParserBuffer st = []" and a: "textToolActive st = Some call"
    and n: "\<not> emitted call" and e: "indexOf data END = Some e"
    and p: "tryParseJSONObject (argBuffer call @ take e data) = None"
  shows "processTextContent data st
         = processTextContent (drop (e + length END) data) (st\<lparr>textToolActive := None\<rparr>)"
  using loop_capture_end [OF a n e, of "[]" False] p
  by (simp add: processTextContent_def b emit_unparsed)

lemma malformed_waiting:
  assumes b: "textToolParserBuffer st = []" and a: "textToolActive st = Some call"
    and n: "\<not> emitted call" and d: "data \<noteq> []" and e: "indexOf data END = None"
    and p: "tryParseJSONObject (argBuffer call @ data) = None"
  shows "processTextContent data st
         = ((False, False), st\<lparr>textToolActive := Some (call\<lparr>argBuffer := argBuffer call @ data\<rparr>)\<rparr>)"
  using loop_capture_wait [OF a n d e p, of "[]" False] b
  by (simp add: processTextContent_def)


lemma indexOf_append_left:
  "indexOf (s @ t) m = Some n \<Longrightarrow> n + length m \<le> length s \<Longrightarrow> indexOf s m = Some n"
proof (induction s arbitrary: n)
  case Nil
  then show ?case by simp
next
  case (Cons c s)
  show ?case
  proof (cases "prefix m (c # s @ t)")
    case True
    with Cons.prems have n0: "n = 0" and l: "length m \<le> length (c # s)" by auto
    from True obtain z where "c # s @ t = m @ z" by (auto simp: prefix_def)
    then have "(c # s) @ t = m @ z" by simp
    with l have "prefix m (c # s)"
      by (metis append_eq_append_conv_if prefixI append_take_drop_id)
    with n0 show ?thesis by simp
  next
    case False
    with Cons.prems obtain n' where n: "n = Suc n'" and r: "indexOf (s @ t) m = Some n'"
      by auto
    from False have "\<not> prefix m (c # s)"
      using prefix_prefix [of m "c # s" t] by auto
    with Cons.IH [OF r] Cons.prems(2) n show ?thesis by simp
  qed
qed

lemma emit_buffer [simp]:
  "textToolParserBuffer (snd (emitTextToolCallIfValid c t s)) = textToolParserBuffer s"
  by (simp add: emitTextToolCallIfValid_def report_def Let_def split: option.splits)

lemma buffer_same: "textToolParserBuffer s = x \<Longrightarrow> s\<lparr>textToolParserBuffer := x\<rparr> = s"
  by auto

text \<open>The flag \<^verbatim>\<open>emittedAny\<close> has no influence on the rest of the loop.\<close>

lemma loopBody_flag: "sameButFlag (loopBody d v a s) (loopBody d v b s)"
  by (auto simp: sameButFlag_def loopBody_def scanStep_def captureStep_def Let_def
      split: option.splits prod.splits delim.splits)

lemma loop_flag:
  "fst (snd (processTextLoop d v a s)) = fst (snd (processTextLoop d v b s)) \<and>
   snd (snd (snd (processTextLoop d v a s))) = snd (snd (snd (processTextLoop d v b s)))"
proof (induction d v a s arbitrary: b rule: processTextLoop.induct)
  case (1 d v a s)
  show ?case
  proof (cases "d = []")
    case True
    then show ?thesis by simp
  next
    case False
    show ?thesis
    proof (cases "loopBody d v a s")
      case (Break d' v' a' s')
      with loopBody_flag [of d v a s b] obtain b' where "loopBody d v b s = Break d' v' b' s'"
        by (auto simp: sameButFlag_def split: loop_step.splits)
      with Break False show ?thesis
        by (simp add: processTextLoop_step)
    next
      case (Continue d' v' a' s')
      with loopBody_flag [of d v a s b] obtain b' where c: "loopBody d v b s = Continue d' v' b' s'"
        by (auto simp: sameButFlag_def split: loop_step.splits)
      from "1.IH" [OF False Continue, of b'] Continue c False show ?thesis
        by (simp add: processTextLoop_step)
    qed
  qed
qed

lemma processTextContent_afterLoop:
  "snd (processTextContent input st)
   = afterLoop (processTextLoop (textToolParserBuffer st @ input) [] False st)"
  by (cases "processTextLoop (textToolParserBuffer st @ input) [] False st")
     (simp add: processTextContent_def afterLoop_def)

lemma afterLoop_flag: "afterLoop (processTextLoop d v a s) = afterLoop (processTextLoop d v b s)"
  using loop_flag [of d v a s b] processTextLoop_data [of d v a s] processTextLoop_data [of d v b s]
  by (simp add: afterLoop_def)

lemma split_in_arguments:
  assumes b: "textToolParserBuffer st = []" and a: "textToolActive st = None"
    and h: "CHR ''<'' \<notin> set hdr"
    and e: "indexOf ((a1 @ a2) @ END @ post) END = Some (length (a1 @ a2))"
    and p: "tryParseJSONObject a1 = None"
  shows "feed [BEGIN @ hdr @ ARG_BEGIN @ a1, a2 @ END @ post] st
         = feed [BEGIN @ hdr @ ARG_BEGIN @ a1 @ a2 @ END @ post] st"
proof -
  define hc where "hc = headerCall hdr"
  define st1 where "st1 = st\<lparr>textToolActive := Some hc\<rparr>"
  define S1 where "S1 = st\<lparr>textToolActive := Some (hc\<lparr>argBuffer := a1\<rparr>)\<rparr>"
  have hc: "argBuffer hc = []" "\<not> emitted hc" by (simp_all add: hc_def headerCall_def)
  have a1: "textToolActive st1 = Some hc" by (simp add: st1_def)
  have e': "indexOf (a1 @ (a2 @ END @ post)) END = Some (length a1 + length a2)"
    using e by simp
  have n1: "indexOf a1 END = None"
    using e' by (rule indexOf_before) (simp add: END_def)
  have e2: "indexOf (a2 @ END @ post) END = Some (length a2)"
    using e' by (rule indexOf_drop)
  have first: "processTextLoop (BEGIN @ hdr @ ARG_BEGIN @ a1) [] False st = ([], [], False, S1)"
  proof (cases "a1 = []")
    case True
    have "processTextLoop (BEGIN @ hdr @ ARG_BEGIN @ []) [] False st = processTextLoop [] [] False st1"
      unfolding st1_def hc_def using a h by (rule loop_scan_to_capture)
    moreover have "S1 = st1" using True hc by (simp add: S1_def st1_def)
    ultimately show ?thesis using True by simp
  next
    case False
    have "processTextLoop (BEGIN @ hdr @ ARG_BEGIN @ a1) [] False st = processTextLoop a1 [] False st1"
      unfolding st1_def hc_def using a h by (rule loop_scan_to_capture)
    also have "\<dots> = ([], [], False, S1)"
      using loop_capture_wait [OF a1 hc(2) False n1, of "[]" False] p hc(1)
      by (simp add: S1_def st1_def)
    finally show ?thesis .
  qed
  then have s1: "snd (processTextContent (BEGIN @ hdr @ ARG_BEGIN @ a1) st) = S1"
    using b by (simp add: processTextContent_def S1_def)
  have bS: "textToolParserBuffer S1 = []" and aS: "textToolActive S1 = Some (hc\<lparr>argBuffer := a1\<rparr>)"
    using b by (simp_all add: S1_def)
  have nS: "\<not> emitted (hc\<lparr>argBuffer := a1\<rparr>)" using hc by simp
  have second: "processTextLoop (a2 @ END @ post) [] False S1
      = processTextLoop post [] 
          (fst (emitTextToolCallIfValid (hc\<lparr>argBuffer := a1 @ a2\<rparr>) (a1 @ a2)
                 (st\<lparr>textToolActive := Some (hc\<lparr>argBuffer := a1 @ a2\<rparr>)\<rparr>)))
          ((snd (emitTextToolCallIfValid (hc\<lparr>argBuffer := a1 @ a2\<rparr>) (a1 @ a2)
                 (st\<lparr>textToolActive := Some (hc\<lparr>argBuffer := a1 @ a2\<rparr>)\<rparr>)))\<lparr>textToolActive := None\<rparr>)"
    using loop_capture_end [OF aS nS e2, of "[]" False]
    by (simp add: S1_def)
  have "processTextLoop (BEGIN @ hdr @ ARG_BEGIN @ a1 @ a2 @ END @ post) [] False st
        = processTextLoop (a1 @ a2 @ END @ post) [] False st1"
    unfolding st1_def hc_def using a h by (rule loop_scan_to_capture)
  also have "\<dots> = processTextLoop post [] 
          (fst (emitTextToolCallIfValid (hc\<lparr>argBuffer := a1 @ a2\<rparr>) (a1 @ a2)
                 (st\<lparr>textToolActive := Some (hc\<lparr>argBuffer := a1 @ a2\<rparr>)\<rparr>)))
          ((snd (emitTextToolCallIfValid (hc\<lparr>argBuffer := a1 @ a2\<rparr>) (a1 @ a2)
                 (st\<lparr>textToolActive := Some (hc\<lparr>argBuffer := a1 @ a2\<rparr>)\<rparr>)))\<lparr>textToolActive := None\<rparr>)"
    using loop_capture_end [OF a1 hc(2), of "a1 @ a2 @ END @ post" "length (a1 @ a2)" "[]" False] e hc(1)
    by (simp add: st1_def)
  finally have whole: "processTextLoop (BEGIN @ hdr @ ARG_BEGIN @ a1 @ a2 @ END @ post) [] False st
        = processTextLoop (a2 @ END @ post) [] False S1"
    using second by simp
  show ?thesis
    using s1 whole b bS by (simp add: processTextContent_afterLoop)
qed

lemma split_after_end:
  assumes b: "textToolParserBuffer st = []" and a: "textToolActive st = None"
    and h: "CHR ''<'' \<notin> set hdr"
    and e: "indexOf (args @ END @ post) END = Some (length args)"
  shows "feed [BEGIN @ hdr @ ARG_BEGIN @ args @ END, post] st
         = feed [BEGIN @ hdr @ ARG_BEGIN @ args @ END @ post] st"
proof -
  define hc where "hc = headerCall hdr"
  define st1 where "st1 = st\<lparr>textToolActive := Some hc\<rparr>"
  define r where "r = emitTextToolCallIfValid (hc\<lparr>argBuffer := args\<rparr>) args
                        (st\<lparr>textToolActive := Some (hc\<lparr>argBuffer := args\<rparr>)\<rparr>)"
  define S where "S = (snd r)\<lparr>textToolActive := None\<rparr>"
  have hc: "argBuffer hc = []" "\<not> emitted hc" by (simp_all add: hc_def headerCall_def)
  have a1: "textToolActive st1 = Some hc" by (simp add: st1_def)
  have e1: "indexOf (args @ END) END = Some (length args)"
    using indexOf_append_left [of "args @ END" post END "length args"] e by simp
  have bS: "textToolParserBuffer S = []"
    using b by (simp add: S_def r_def)
  have "processTextLoop (BEGIN @ hdr @ ARG_BEGIN @ args @ END) [] False st
        = processTextLoop (args @ END) [] False st1"
    unfolding st1_def hc_def using a h by (rule loop_scan_to_capture)
  also have "\<dots> = ([], [], fst r, S)"
    using loop_capture_end [OF a1 hc(2) e1, of "[]" False] hc(1)
    by (simp add: st1_def r_def S_def)
  finally have s1: "snd (processTextContent (BEGIN @ hdr @ ARG_BEGIN @ args @ END) st) = S"
    using b bS by (simp add: processTextContent_afterLoop afterLoop_def buffer_same)
  have "processTextLoop (BEGIN @ hdr @ ARG_BEGIN @ args @ END @ post) [] False st
        = processTextLoop (args @ END @ post) [] False st1"
    unfolding st1_def hc_def using a h by (rule loop_scan_to_capture)
  also have "\<dots> = processTextLoop post [] (fst r) S"
    using loop_capture_end [OF a1 hc(2) e, of "[]" False] hc(1)
    by (simp add: st1_def r_def S_def)
  finally have "afterLoop (processTextLoop (BEGIN @ hdr @ ARG_BEGIN @ args @ END @ post) [] False st)
      = afterLoop (processTextLoop post [] False S)"
    using afterLoop_flag [of post "[]" "fst r" S False] by simp
  then show ?thesis
    using s1 b bS by (simp add: processTextContent_afterLoop)
qed

lemma split_in_capture:
  assumes b: "textToolParserBuffer st = []" and a: "textToolActive st = Some call"
    and n: "\<not> emitted call"
    and e: "indexOf ((a1 @ a2) @ END @ post) END = Some (length (a1 @ a2))"
    and p: "tryParseJSONObject (argBuffer call @ a1) = None"
  shows "feed [a1, a2 @ END @ post] st = feed [a1 @ a2 @ END @ post] st"
proof -
  define S1 where "S1 = st\<lparr>textToolActive := Some (call\<lparr>argBuffer := argBuffer call @ a1\<rparr>)\<rparr>"
  have e': "indexOf (a1 @ (a2 @ END @ post)) END = Some (length a1 + length a2)"
    using e by simp
  have n1: "indexOf a1 END = None"
    using e' by (rule indexOf_before) (simp add: END_def)
  have e2: "indexOf (a2 @ END @ post) END = Some (length a2)"
    using e' by (rule indexOf_drop)
  have first: "processTextLoop a1 [] False st = ([], [], False, S1)"
  proof (cases "a1 = []")
    case True
    with a show ?thesis by (simp add: S1_def)
  next
    case False
    show ?thesis
      using loop_capture_wait [OF a n False n1 p, of "[]" False] by (simp add: S1_def)
  qed
  then have s1: "snd (processTextContent a1 st) = S1"
    using b by (simp add: processTextContent_def S1_def)
  have bS: "textToolParserBuffer S1 = []"
    and aS: "textToolActive S1 = Some (call\<lparr>argBuffer := argBuffer call @ a1\<rparr>)"
    using b by (simp_all add: S1_def)
  have nS: "\<not> emitted (call\<lparr>argBuffer := argBuffer call @ a1\<rparr>)" using n by simp
  have "processTextLoop (a1 @ a2 @ END @ post) [] False st
        = processTextLoop (a2 @ END @ post) [] False S1"
    using loop_capture_end [OF aS nS e2, of "[]" False]
      loop_capture_end [OF a n, of "a1 @ a2 @ END @ post" "length (a1 @ a2)" "[]" False] e
    by (simp add: S1_def)
  then show ?thesis
    using s1 b bS by (simp add: processTextContent_afterLoop)
qed

section \<open>The registry of call keys\<close>

lemma report_fields [simp]:
  "toolCallBuffers (report p s) = toolCallBuffers s"
  "completedToolCallIndices (report p s) = completedToolCallIndices s"
  "hasEmittedAssistantText (report p s) = hasEmittedAssistantText s"
  "emittedBeginToolCallsHint (report p s) = emittedBeginToolCallsHint s"
  "textToolParserBuffer (report p s) = textToolParserBuffer s"
  "textToolActive (report p s) = textToolActive s"
  "emittedTextToolCallKeys (report p s) = emittedTextToolCallKeys s"
  "emittedTextToolCallIds (report p s) = emittedTextToolCallIds s"
  "outputTokenCount (report p s) = outputTokenCount s"
  by (simp_all add: report_def)

lemma grows_refl [simp]: "grows st st"
  by (simp add: grows_def)

lemma grows_same:
  "emittedTextToolCallKeys b = emittedTextToolCallKeys a \<Longrightarrow> reported b = reported a \<Longrightarrow> grows a b"
  by (simp add: grows_def)

lemma grows_trans:
  assumes ab: "grows a b" and bc: "grows b c"
  shows "grows a c"
proof -
  from ab obtain n1 where r1: "reported b = reported a @ n1"
    and k1: "emittedTextToolCallKeys a \<subseteq> emittedTextToolCallKeys b"
    and o1: "list_all (\<lambda>e. snd e \<subseteq> emittedTextToolCallKeys b \<and> registered e) n1"
    unfolding grows_def by (metis append_take_drop_id)
  from bc obtain n2 where r2: "reported c = reported b @ n2"
    and k2: "emittedTextToolCallKeys b \<subseteq> emittedTextToolCallKeys c"
    and o2: "list_all (\<lambda>e. snd e \<subseteq> emittedTextToolCallKeys c \<and> registered e) n2"
    unfolding grows_def by (metis append_take_drop_id)
  from o1 k2 have "list_all (\<lambda>e. snd e \<subseteq> emittedTextToolCallKeys c \<and> registered e) n1"
    by (auto simp: list_all_iff)
  with o2 r1 r2 k1 k2 show ?thesis
    by (auto simp: grows_def)
qed

lemma inv_grows:
  assumes i: "keysBeforeReports st" and g: "grows st st'"
  shows "keysBeforeReports st'"
proof -
  from g obtain n where r: "reported st' = reported st @ n"
    and k: "emittedTextToolCallKeys st \<subseteq> emittedTextToolCallKeys st'"
    and o: "list_all (\<lambda>e. snd e \<subseteq> emittedTextToolCallKeys st' \<and> registered e) n"
    unfolding grows_def by (metis append_take_drop_id)
  from i k have "list_all (\<lambda>e. snd e \<subseteq> emittedTextToolCallKeys st' \<and> registered e) (reported st)"
    by (auto simp: keysBeforeReports_def list_all_iff)
  with o r show ?thesis
    by (simp add: keysBeforeReports_def)
qed

lemma grows_update [simp]:
  "grows a (b\<lparr>toolCallBuffers := x1\<rparr>) = grows a b"
  "grows a (b\<lparr>completedToolCallIndices := x2\<rparr>) = grows a b"
  "grows a (b\<lparr>hasEmittedAssistantText := x3\<rparr>) = grows a b"
  "grows a (b\<lparr>emittedBeginToolCallsHint := x4\<rparr>) = grows a b"
  "grows a (b\<lparr>textToolParserBuffer := x5\<rparr>) = grows a b"
  "grows a (b\<lparr>textToolActive := x6\<rparr>) = grows a b"
  "grows a (b\<lparr>emittedTextToolCallIds := x8\<rparr>) = grows a b"
  "grows a (b\<lparr>outputTokenCount := x9\<rparr>) = grows a b"
  by (simp_all add: grows_def)

lemma grows_update_left [simp]:
  "grows (a\<lparr>toolCallBuffers := x1\<rparr>) b = grows a b"
  "grows (a\<lparr>completedToolCallIndices := x2\<rparr>) b = grows a b"
  "grows (a\<lparr>hasEmittedAssistantText := x3\<rparr>) b = grows a b"
  "grows (a\<lparr>emittedBeginToolCallsHint := x4\<rparr>) b = grows a b"
  "grows (a\<lparr>textToolParserBuffer := x5\<rparr>) b = grows a b"
  "grows (a\<lparr>textToolActive := x6\<rparr>) b = grows a b"
  "grows (a\<lparr>emittedTextToolCallIds := x8\<rparr>) b = grows a b"
  "grows (a\<lparr>outputTokenCount := x9\<rparr>) b = grows a b"
  by (simp_all add: grows_def)

lemma grows_report_text [simp]: "grows st (report (TextPart t) st)"
  by (simp add: grows_def report_def registered_def)

lemma grows_report_thinking [simp]: "grows st (report (ThinkingPart t i m) st)"
  by (simp add: grows_def report_def registered_def)

lemma grows_report_call:
  "k = callKey n v \<Longrightarrow>
   grows st (report (ToolCallPart i n v)
               (st\<lparr>emittedTextToolCallKeys := insert k (emittedTextToolCallKeys st)\<rparr>))"
  by (auto simp: grows_def report_def registered_def)

lemma grows_report_call_ids:
  "k = callKey n v \<Longrightarrow>
   grows st (report (ToolCallPart i n v)
               (st\<lparr>emittedTextToolCallIds := x,
                   emittedTextToolCallKeys := insert k (emittedTextToolCallKeys st)\<rparr>))"
  by (auto simp: grows_def report_def registered_def)

lemma grows_emit: "grows st (snd (emitTextToolCallIfValid c t st))"
proof (cases "tryParseJSONObject t")
  case None
  then show ?thesis by (simp add: emitTextToolCallIfValid_def)
next
  case (Some v)
  define name where "name = (case call_name c of None \<Rightarrow> ''unknown_tool'' | Some n \<Rightarrow> n)"
  show ?thesis
  proof (cases "call_index c")
    case None
    with Some show ?thesis
      unfolding emitTextToolCallIfValid_def Let_def name_def [symmetric]
      by (simp add: grows_report_call callKey_def)
  next
    case (Some i)
    with \<open>tryParseJSONObject t = Some v\<close> show ?thesis
      unfolding emitTextToolCallIfValid_def Let_def name_def [symmetric]
      by (simp add: grows_report_call_ids callKey_def)
  qed
qed

lemma grows_tryEmit: "grows st (tryEmitBufferedToolCall idx st)"
proof (cases "map_of (toolCallBuffers st) idx")
  case None
  then show ?thesis by (simp add: tryEmitBufferedToolCall_def)
next
  case (Some buf)
  show ?thesis
  proof (cases "buf_name buf")
    case None
    with Some show ?thesis by (simp add: tryEmitBufferedToolCall_def)
  next
    case name: (Some name)
    show ?thesis
    proof (cases "tryParseJSONObject (buf_args buf)")
      case None
      with Some name show ?thesis by (simp add: tryEmitBufferedToolCall_def)
    next
      case v: (Some v)
      show ?thesis
        unfolding tryEmitBufferedToolCall_def Let_def
        using Some name v by (simp add: grows_report_call callKey_def)
    qed
  qed
qed

lemma grows_flushEntries: "grows st (snd (flushEntries thr es st))"
proof (induction es arbitrary: st)
  case Nil
  show ?case by simp
next
  case (Cons e es)
  obtain i b where e: "e = (i, b)" by (cases e)
  show ?case
  proof (cases "tryParseJSONObject (buf_args b)")
    case None
    with Cons.IH [of st] show ?thesis by (cases thr) (simp_all add: e)
  next
    case (Some v)
    define st4 where "st4 = (report (ToolCallPart (bufferedId b) (flushName b) v)
         (st\<lparr>emittedTextToolCallKeys :=
               insert (callKey (flushName b) v) (emittedTextToolCallKeys st)\<rparr>))
        \<lparr>toolCallBuffers := AList.delete i (toolCallBuffers st)\<rparr>
        \<lparr>completedToolCallIndices := insert i (completedToolCallIndices st)\<rparr>"
    have g: "grows st st4"
      unfolding st4_def by (simp add: grows_report_call)
    have "snd (flushEntries thr (e # es) st) = snd (flushEntries thr es st4)"
      using Some by (simp add: e Let_def st4_def flushName_def callKey_def)
    with grows_trans [OF g Cons.IH [of st4]] show ?thesis by simp
  qed
qed

lemma grows_flushToolCallBuffers: "grows st (snd (flushToolCallBuffers thr st))"
  by (simp add: flushToolCallBuffers_def grows_flushEntries)

lemma stepState_simps [simp]:
  "stepState (Break d v a s) = s" "stepState (Continue d v a s) = s"
  by (simp_all add: stepState_def)

lemma grows_emit_active:
  "grows st (snd (emitTextToolCallIfValid c t (st\<lparr>textToolActive := x\<rparr>)))"
  using grows_emit [of "st\<lparr>textToolActive := x\<rparr>" c t] by simp

lemma grows_scanStep: "grows st (stepState (scanStep d v a st))"
  by (simp add: scanStep_def Let_def grows_emit_active
      split: option.splits prod.splits delim.splits)

lemma grows_captureStep: "grows st (stepState (captureStep c d v a st))"
  by (simp add: captureStep_def Let_def grows_emit_active split: option.splits)

lemma grows_loopBody: "grows st (stepState (loopBody d v a st))"
  by (simp add: loopBody_def grows_scanStep grows_captureStep split: option.splits)

lemma grows_loop: "grows st (snd (snd (snd (processTextLoop d v a st))))"
proof (induction d v a st rule: processTextLoop.induct)
  case (1 d v a st)
  show ?case
  proof (cases "d = []")
    case True
    then show ?thesis by simp
  next
    case False
    show ?thesis
    proof (cases "loopBody d v a st")
      case (Break d' v' a' st')
      with False grows_loopBody [of st d v a] show ?thesis
        by (simp add: processTextLoop_step)
    next
      case (Continue d' v' a' st')
      with grows_loopBody [of st d v a] have g: "grows st st'" by simp
      from grows_trans [OF g "1.IH" [OF False Continue]] False Continue show ?thesis
        by (simp add: processTextLoop_step)
    qed
  qed
qed

lemma grows_processTextContent: "grows st (snd (processTextContent input st))"
proof -
  define r where "r = processTextLoop (textToolParserBuffer st @ input) [] False st"
  have g: "grows st (snd (snd (snd r)))"
    unfolding r_def by (rule grows_loop)
  have "grows (snd (snd (snd r))) (afterLoop r)"
    by (simp add: afterLoop_def)
  with g have "grows st (afterLoop r)" by (rule grows_trans)
  then show ?thesis
    by (simp add: processTextContent_afterLoop r_def)
qed

lemma grows_flushActive: "grows st (flushActiveTextToolCall st)"
  by (simp add: flushActiveTextToolCall_def grows_emit split: option.splits)

lemma grows_reportThinking: "grows st (snd (reportThinking host ch st))"
  by (simp add: reportThinking_def Let_def split: option.splits thinking.splits)

lemma grows_processToolCall: "grows st (processToolCall tc st)"
proof -
  have "\<And>i x y. grows st (tryEmitBufferedToolCall i (st\<lparr>outputTokenCount := x, toolCallBuffers := y\<rparr>))"
    using grows_tryEmit [of "st\<lparr>outputTokenCount := _, toolCallBuffers := _\<rparr>"] by simp
  moreover have "\<And>i y. grows st (tryEmitBufferedToolCall i (st\<lparr>toolCallBuffers := y\<rparr>))"
    using grows_tryEmit [of "st\<lparr>toolCallBuffers := _\<rparr>"] by simp
  ultimately show ?thesis
    by (simp add: processToolCall_def Let_def split: option.splits)
qed

lemma grows_processToolCalls: "grows st (processToolCalls tcs st)"
proof (induction tcs arbitrary: st)
  case Nil
  show ?case by simp
next
  case (Cons tc tcs)
  from grows_trans [OF grows_processToolCall Cons.IH] show ?case by simp
qed

lemma grows_processContent: "grows st (snd (processContent ch em st))"
proof (cases "content ch")
  case None
  then show ?thesis by (simp add: processContent_def)
next
  case (Some c)
  obtain et ea s1 where p: "processTextContent c st = ((et, ea), s1)"
    by (cases "processTextContent c st") auto
  have "grows st s1" using grows_processTextContent [of st c] p by simp
  with Some p show ?thesis
    by (simp add: processContent_def Let_def)
qed

lemma grows_processToolCallsField: "grows st (processToolCallsField ch st)"
proof (cases "tool_calls ch")
  case None
  then show ?thesis by (simp add: processToolCallsField_def)
next
  case (Some tcs)
  define st1 where "st1 = (if \<not> emittedBeginToolCallsHint st \<and> hasEmittedAssistantText st \<and> tcs \<noteq> []
                     then (report (TextPart '' '') st)\<lparr>emittedBeginToolCallsHint := True\<rparr>
                     else st)"
  have "grows st st1" by (simp add: st1_def)
  from grows_trans [OF this grows_processToolCalls] Some show ?thesis
    by (simp add: processToolCallsField_def Let_def st1_def)
qed

lemma grows_deltaBody: "grows st (snd (deltaBody host ch st))"
proof -
  obtain e1 s1 where a: "reportThinking host ch st = (e1, s1)" by (cases "reportThinking host ch st")
  obtain e2 s2 where b: "processContent ch e1 s1 = (e2, s2)" by (cases "processContent ch e1 s1")
  have "grows st s1" using grows_reportThinking [of st host ch] a by simp
  moreover have "grows s1 s2" using grows_processContent [of s1 ch e1] b by simp
  moreover have "grows s2 (processToolCallsField ch s2)" by (rule grows_processToolCallsField)
  ultimately have "grows st (processToolCallsField ch s2)" by (blast intro: grows_trans)
  then show ?thesis by (simp add: deltaBody_def a b)
qed

lemma grows_processDelta: "grows st (snd (processDelta host c st))"
proof (cases c)
  case None
  then show ?thesis by (simp add: processDelta_def)
next
  case (Some ch)
  obtain em s3 where b: "deltaBody host ch st = (em, s3)" by (cases "deltaBody host ch st")
  obtain r s4 where f: "flushToolCallBuffers True s3 = (r, s4)" by (cases "flushToolCallBuffers True s3")
  have g3: "grows st s3" using grows_deltaBody [of st host ch] b by simp
  have "grows s3 s4" using grows_flushToolCallBuffers [of s3 True] f by simp
  with g3 have "grows st s4" by (rule grows_trans)
  with g3 show ?thesis
    by (auto simp: processDelta_def Some b f split: option.splits)
qed

lemma grows_processLine: "grows st (processLine host line st)"
proof -
  have "grows st (flushActiveTextToolCall (snd (flushToolCallBuffers False st)))"
    using grows_trans [OF grows_flushToolCallBuffers grows_flushActive] .
  then show ?thesis
    by (simp add: processLine_def Let_def grows_processDelta split: option.splits)
qed

lemma grows_processLines: "grows st (processLines host ls st)"
proof (induction ls arbitrary: st)
  case Nil
  show ?case by simp
next
  case (Cons l ls)
  from grows_trans [OF grows_processLine Cons.IH] show ?case by simp
qed

lemma grows_readLoop: "grows st (snd (readLoop host stream buffer st))"
proof (induction host stream buffer st rule: readLoop.induct)
  case (4 host v ps buffer st)
  from grows_trans [OF grows_processLines "4.IH" [OF refl]] show ?case
    by (simp add: Let_def)
qed simp_all

lemma registered_key_known:
  assumes i: "keysBeforeReports st" and e: "ToolCallPart i n v \<in> set (events st)"
  shows "callKey n v \<in> emittedTextToolCallKeys st"
proof -
  from e obtain ks where m: "(ToolCallPart i n v, ks) \<in> set (reported st)"
    by (auto simp: events_def)
  with i have "snd (ToolCallPart i n v, ks) \<subseteq> emittedTextToolCallKeys st"
    and "registered (ToolCallPart i n v, ks)"
    unfolding keysBeforeReports_def list_all_iff by blast+
  then show ?thesis
    by (auto simp: registered_def)
qed

lemma emit_known_key:
  assumes "call_index call = None" and "tryParseJSONObject argText = Some v"
    and "(case call_name call of None \<Rightarrow> ''unknown_tool'' | Some m \<Rightarrow> m) @ '':'' @ JSON_stringify v
           \<in> emittedTextToolCallKeys st"
  shows "emitTextToolCallIfValid call argText st = (False, st)"
  using assms by (simp add: emitTextToolCallIfValid_def Let_def)

text \<open>An inline call without a declared index whose key is in the registry is passed over:
  processing it is the same as processing what follows it.\<close>

lemma duplicate_from_scanning:
  assumes b: "textToolParserBuffer st = []" and a: "textToolActive st = None"
    and h: "CHR ''<'' \<notin> set hdr"
    and e: "indexOf (args @ END @ rest) END = Some (length args)"
    and x: "call_index (headerCall hdr) = None"
    and p: "tryParseJSONObject args = Some v"
    and k: "(case call_name (headerCall hdr) of None \<Rightarrow> ''unknown_tool'' | Some m \<Rightarrow> m)
              @ '':'' @ JSON_stringify v \<in> emittedTextToolCallKeys st"
  shows "processTextContent (BEGIN @ hdr @ ARG_BEGIN @ args @ END @ rest) st
         = processTextContent rest st"
proof -
  define c1 where "c1 = (headerCall hdr)\<lparr>argBuffer := args\<rparr>"
  define st1 where "st1 = st\<lparr>textToolActive := Some (headerCall hdr)\<rparr>"
  define st2 where "st2 = st\<lparr>textToolActive := Some c1\<rparr>"
  have a1: "textToolActive st1 = Some (headerCall hdr)" by (simp add: st1_def)
  have ne: "\<not> emitted (headerCall hdr)" by (simp add: headerCall_def)
  have ab: "argBuffer (headerCall hdr) = []" by (simp add: headerCall_def)
  have "emitTextToolCallIfValid c1 args st2 = (False, st2)"
    using x p k by (intro emit_known_key) (simp_all add: c1_def st2_def)
  then have r: "emitTextToolCallIfValid ((headerCall hdr)\<lparr>argBuffer := args\<rparr>) args
      (st\<lparr>textToolActive := Some ((headerCall hdr)\<lparr>argBuffer := args\<rparr>)\<rparr>)
      = (False, st\<lparr>textToolActive := Some ((headerCall hdr)\<lparr>argBuffer := args\<rparr>)\<rparr>)"
    by (simp add: c1_def st2_def)
  have restore: "st\<lparr>textToolActive := None\<rparr> = st"
    using a by simp
  have "processTextLoop (BEGIN @ hdr @ ARG_BEGIN @ args @ END @ rest) [] False st
        = processTextLoop (args @ END @ rest) [] False st1"
    unfolding st1_def using a h by (rule loop_scan_to_capture)
  also have "\<dots> = processTextLoop rest [] False st"
    using loop_capture_end [OF a1 ne e, of "[]" False]
    by (simp add: ab st1_def r restore)
  finally show ?thesis
    by (simp add: processTextContent_def b)
qed

section \<open>The carryover set by the scanning branch\<close>

lemma partialPrefixFrom_spec:
  "suffix (take (partialPrefixFrom data n) BEGIN) data \<and>
   (\<forall>j. partialPrefixFrom data n < j \<and> j \<le> n \<longrightarrow> \<not> suffix (take j BEGIN) data)"
proof (induction n)
  case 0
  show ?case by auto
next
  case (Suc n)
  show ?case
  proof (cases "suffix (take (Suc n) BEGIN) data")
    case True
    then show ?thesis by auto
  next
    case False
    with Suc show ?thesis
      by (auto simp: le_Suc_eq)
  qed
qed

text \<open>Unless the buffered text is itself a beginning of the marker, the closure finds the
  longest end of the text that is a proper beginning of the marker.\<close>

lemma longestPartialPrefix_longest:
  assumes ne: "data \<noteq> []" and np: "\<not> prefix data BEGIN"
    and kb: "k < length BEGIN" and ks: "suffix (take k BEGIN) data"
    and km: "\<forall>j. k < j \<and> j < length BEGIN \<longrightarrow> \<not> suffix (take j BEGIN) data"
  shows "longestPartialPrefix data = k"
proof -
  define n where "n = min (length BEGIN - 1) (length data - 1)"
  define l where "l = longestPartialPrefix data"
  have l: "l = partialPrefixFrom data n" by (simp add: l_def n_def longestPartialPrefix_def)
  have ls: "suffix (take l BEGIN) data"
    and lm: "\<forall>j. l < j \<and> j \<le> n \<longrightarrow> \<not> suffix (take j BEGIN) data"
    using partialPrefixFrom_spec [of data n] l by simp_all
  have ln: "l \<le> n" using partialPrefixFrom_le [of data n] l by simp
  have lb: "l < length BEGIN" unfolding l_def by (rule longestPartialPrefix_less)
  have kn: "k \<le> n"
  proof (rule ccontr)
    assume "\<not> k \<le> n"
    with kb have "length data - 1 < k" unfolding n_def by arith
    with ne have "length data \<le> k" by (cases data) auto
    moreover from ks have "length (take k BEGIN) \<le> length data" by (rule suffix_length_le)
    ultimately have e: "length (take k BEGIN) = length data" using kb by simp
    with ks have "take k BEGIN = data"
      by (metis suffix_def append_eq_append_conv append_Nil)
    then have "prefix data BEGIN" using take_is_prefix [of k BEGIN] by simp
    with np show False by simp
  qed
  have "\<not> l < k" using lm ks kn by blast
  moreover have "\<not> k < l" using km ls lb by blast
  ultimately show ?thesis unfolding l_def by simp
qed

lemma scanStep_no_begin_carry:
  assumes "indexOf data BEGIN = None" and "0 < longestPartialPrefix data"
  shows "stepState (scanStep data v a st)
         = st\<lparr>textToolParserBuffer := drop (length data - longestPartialPrefix data) data\<rparr>"
  using assms by (simp add: scanStep_def Let_def)

lemma scanStep_begin_carry:
  assumes "indexOf data BEGIN = Some b" and "findDelimiter (drop (b + length BEGIN) data) = None"
  shows "stepState (scanStep data v a st)
         = st\<lparr>textToolParserBuffer := BEGIN @ drop (b + length BEGIN) data\<rparr>"
  using assms by (simp add: scanStep_def Let_def)

section \<open>Scenarios\<close>

text \<open>
  C7 (Scenario C). The inline call arrives in the two chunks
  \<^verbatim>\<open><|tool_call_begin|>foo<|tool_call_argument_begin|>{"x":\<close> and
  \<^verbatim>\<open>1}<|tool_call_end|> done\<close>. The first chunk reports nothing and leaves the call
  open; after the second the parts reported are exactly the tool call \<open>foo\<close> with the
  arguments \<open>{x: 1}\<close> and then the text \<open>" done"\<close>.
\<close>

theorem C7_inline_call_in_two_chunks:
  \<open>events (feed [''<|tool_call_begin|>foo<|tool_call_argument_begin|>{"x":''] initial) = [] \<and>
   events (feed [''<|tool_call_begin|>foo<|tool_call_argument_begin|>{"x":'',
                 ''1}<|tool_call_end|> done''] initial)
     = [ToolCallPart (FreshId ''tct_'') ''foo'' (JObj [(''x'', JNum 1 0)]), TextPart '' done'']\<close>
  by code_simp

text \<open>
  C6 (Scenario B). Two fragments for index 0 arrive, the first with the name \<open>search\<close> and
  the argument text \<^verbatim>\<open>{"q":\<close>, the second with the argument text \<^verbatim>\<open>"x"}\<close>, and then the
  terminal marker \<open>tool_calls\<close>. The first fragment reports nothing; the second reports
  the one tool call \<open>search\<close> with the arguments \<open>{q: "x"}\<close>, removes the pending entry and
  marks index 0 completed; the terminal flush returns without an error and leaves the
  session, and so the parts reported, as they are; and any further fragment for index 0
  is ignored.
\<close>

theorem C6_structured_two_fragments:
  \<open>(let s1 = snd (processDelta host (Some (fragment 0 (Some ''search'') ''{"q":'')) initial);
        s2 = snd (processDelta host (Some (fragment 0 None ''"x"}'')) s1);
        r3 = processDelta host (Some (terminal ''tool_calls'')) s2;
        r4 = processDelta host (Some (fragment 0 n a)) (snd r3)
    in events s1 = [] \<and>
       events s2 = [ToolCallPart (FreshId ''call_'') ''search'' (JObj [(''q'', JStr ''x'')])] \<and>
       toolCallBuffers s2 = [] \<and>
       completedToolCallIndices s2 = {0} \<and>
       r3 = (Returned False, s2) \<and>
       r4 = (Returned False, s2))\<close>
  by code_simp

section \<open>The structured channel\<close>

text \<open>
  C10. The per-fragment step never reports a structured call whose name is absent: when
  the fragment brings no name and the pending entry of its index (if there is one) has
  none, \<^verbatim>\<open>processToolCall\<close> reports nothing, whatever the argument text; and
  \<^verbatim>\<open>tryEmitBufferedToolCall\<close> leaves a session with a nameless entry at the index unchanged.
  The flush reports such an entry once its argument text parses, under the name
  \<open>unknown_tool\<close>: the flush at the end of the stream always, the flush at a terminal
  marker when it does not throw.
\<close>

theorem C10_structured_emission_name_gated:
  "((fn_name tc = None \<or> fn_name tc = Some []) \<and>
    (case map_of (toolCallBuffers st) (case tc_index tc of None \<Rightarrow> 0 | Some i \<Rightarrow> i) of
       None \<Rightarrow> True | Some b \<Rightarrow> buf_name b = None)
    \<longrightarrow> reported (processToolCall tc st) = reported st) \<and>
   (map_of (toolCallBuffers st) idx = Some buf \<and> buf_name buf = None
    \<longrightarrow> tryEmitBufferedToolCall idx st = st) \<and>
   ((idx, buf) \<in> set (toolCallBuffers st) \<and> buf_name buf = None \<and>
    tryParseJSONObject (buf_args buf) = Some v
    \<longrightarrow> fst (flushToolCallBuffers False st) = None \<and>
        ToolCallPart (bufferedId buf) ''unknown_tool'' v
          \<in> set (drop (length (events st)) (events (snd (flushToolCallBuffers False st))))) \<and>
   ((idx, buf) \<in> set (toolCallBuffers st) \<and> buf_name buf = None \<and>
    tryParseJSONObject (buf_args buf) = Some v \<and> \<not> unparseable (toolCallBuffers st)
    \<longrightarrow> fst (flushToolCallBuffers True st) = None \<and>
        ToolCallPart (bufferedId buf) ''unknown_tool'' v
          \<in> set (drop (length (events st)) (events (snd (flushToolCallBuffers True st)))))"
proof (intro conjI impI)
  assume "(fn_name tc = None \<or> fn_name tc = Some []) \<and>
    (case map_of (toolCallBuffers st) (case tc_index tc of None \<Rightarrow> 0 | Some i \<Rightarrow> i) of
       None \<Rightarrow> True | Some b \<Rightarrow> buf_name b = None)"
  then show "reported (processToolCall tc st) = reported st"
    using processToolCall_nameless by blast
next
  assume "map_of (toolCallBuffers st) idx = Some buf \<and> buf_name buf = None"
  then show "tryEmitBufferedToolCall idx st = st"
    using tryEmit_nameless by blast
next
  assume a: "(idx, buf) \<in> set (toolCallBuffers st) \<and> buf_name buf = None \<and>
    tryParseJSONObject (buf_args buf) = Some v"
  show "fst (flushToolCallBuffers False st) = None"
    using flushToolCallBuffers_quiet by blast
  from a have "ToolCallPart (bufferedId buf) (flushName buf) v \<in> set (flushedParts (toolCallBuffers st))"
    using flushedParts_mem by blast
  moreover from a have "flushName buf = ''unknown_tool''"
    by (simp add: flushName_def)
  ultimately show "ToolCallPart (bufferedId buf) ''unknown_tool'' v
      \<in> set (drop (length (events st)) (events (snd (flushToolCallBuffers False st))))"
    using flushToolCallBuffers_quiet [of st] by simp
next
  assume a: "(idx, buf) \<in> set (toolCallBuffers st) \<and> buf_name buf = None \<and>
    tryParseJSONObject (buf_args buf) = Some v \<and> \<not> unparseable (toolCallBuffers st)"
  then have f: "flushToolCallBuffers True st = flushToolCallBuffers False st"
    by (simp add: flushToolCallBuffers_def flushEntries_all_parse)
  show "fst (flushToolCallBuffers True st) = None"
    using f flushToolCallBuffers_quiet by simp
  from a have "ToolCallPart (bufferedId buf) (flushName buf) v \<in> set (flushedParts (toolCallBuffers st))"
    using flushedParts_mem by blast
  moreover from a have "flushName buf = ''unknown_tool''"
    by (simp add: flushName_def)
  ultimately show "ToolCallPart (bufferedId buf) ''unknown_tool'' v
      \<in> set (drop (length (events st)) (events (snd (flushToolCallBuffers True st))))"
    using f flushToolCallBuffers_quiet [of st] by simp
qed

text \<open>The witness: a fragment for index 0 with the complete argument text \<^verbatim>\<open>{}\<close> and no
  name stays pending, a further nameless fragment reports nothing, and the flush reports
  the call as \<open>unknown_tool\<close>.\<close>

theorem C10_witness:
  \<open>(let st = snd (processDelta True (Some (fragment 0 None ''{}'')) initial);
        buf = \<lparr>buf_id = None, buf_name = None, buf_args = ''{}''\<rparr>
    in toolCallBuffers st = [(0, buf)] \<and> events st = [] \<and>
       reported (processToolCall
                   \<lparr>tc_index = Some 0, tc_id = None, fn_name = None, fn_arguments = Some '' ''\<rparr> st)
         = reported st \<and>
       tryEmitBufferedToolCall 0 st = st \<and>
       events (snd (flushToolCallBuffers False st))
         = [ToolCallPart (FreshId ''call_'') ''unknown_tool'' (JObj [])] \<and>
       ToolCallPart (FreshId ''call_'') ''unknown_tool'' (JObj [])
         \<in> set (events (snd (flushToolCallBuffers True st))))\<close>
proof -
  define st where "st = snd (processDelta True (Some (fragment 0 None ''{}'')) initial)"
  define buf where "buf = \<lparr>buf_id = None, buf_name = None, buf_args = ''{}''\<rparr>"
  define tc where
    "tc = \<lparr>tc_index = Some 0, tc_id = None, fn_name = None, fn_arguments = Some '' ''\<rparr>"
  have b: "toolCallBuffers st = [(0, buf)]" unfolding st_def buf_def by code_simp
  have e: "events st = []" unfolding st_def by code_simp
  have f: "events (snd (flushToolCallBuffers False st))
             = [ToolCallPart (FreshId ''call_'') ''unknown_tool'' (JObj [])]"
    unfolding st_def by code_simp
  note inst = C10_structured_emission_name_gated [of tc st 0 buf "JObj []"]
  have "reported (processToolCall tc st) = reported st"
    using inst by (simp add: b tc_def buf_def)
  moreover have "tryEmitBufferedToolCall 0 st = st"
    using inst by (simp add: b buf_def)
  moreover have "ToolCallPart (FreshId ''call_'') ''unknown_tool'' (JObj [])
      \<in> set (events (snd (flushToolCallBuffers True st)))"
  proof -
    have u: "\<not> unparseable (toolCallBuffers st)" unfolding st_def by code_simp
    have p: "tryParseJSONObject (buf_args buf) = Some (JObj [])" unfolding buf_def by code_simp
    have i: "bufferedId buf = FreshId ''call_''" by (simp add: bufferedId_def buf_def)
    from inst u p b have "ToolCallPart (bufferedId buf) ''unknown_tool'' (JObj [])
        \<in> set (drop (length (events st)) (events (snd (flushToolCallBuffers True st))))"
      by (simp add: buf_def)
    then show ?thesis
      unfolding i by (rule in_set_dropD)
  qed
  ultimately show ?thesis
    using b e f by (simp add: st_def [symmetric] buf_def [symmetric] tc_def [symmetric] Let_def)
qed

text \<open>
  C2 fails on the code. A fragment for index 0 with the argument text \<^verbatim>\<open>{\<close> is pending
  when the payload with the terminal marker \<open>tool_calls\<close> arrives. \<^verbatim>\<open>processDelta\<close>
  throws the invalid-payload error there, as the claim asks; but it is called inside the
  \<^verbatim>\<open>try\<close> of the read loop, whose \<^verbatim>\<open>catch\<close> block is empty, so
  \<^verbatim>\<open>processStreamingResponse\<close> returns without an error and nothing is reported.
\<close>

theorem C2_error_swallowed:
  \<open>map_option decodeChoice
      (JSON_parse ''{"choices":[{"delta":{"tool_calls":[{"index":0,"function":{"name":"search","arguments":"{"}}]}}]}'')
     = Some (Some (fragment 0 (Some ''search'') ''{'')) \<and>
   map_option decodeChoice (JSON_parse ''{"choices":[{"delta":{},"finish_reason":"tool_calls"}]}'')
     = Some (Some (terminal ''tool_calls'')) \<and>
   fst (processDelta True (Some (terminal ''tool_calls''))
          (snd (processDelta True (Some (fragment 0 (Some ''search'') ''{'')) initial)))
     = Threw InvalidToolCallPayload \<and>
   fst (processStreamingResponse True
          [Chunk (''data: {"choices":[{"delta":{"tool_calls":[{"index":0,"function":{"name":"search","arguments":"{"}}]}}]}''
                  @ [CHR 0x0A] @
                  ''data: {"choices":[{"delta":{},"finish_reason":"tool_calls"}]}'' @ [CHR 0x0A] @
                  ''data: [DONE]'' @ [CHR 0x0A])] initial)
     = None \<and>
   events (snd (processStreamingResponse True
          [Chunk (''data: {"choices":[{"delta":{"tool_calls":[{"index":0,"function":{"name":"search","arguments":"{"}}]}}]}''
                  @ [CHR 0x0A] @
                  ''data: {"choices":[{"delta":{},"finish_reason":"tool_calls"}]}'' @ [CHR 0x0A] @
                  ''data: [DONE]'' @ [CHR 0x0A])] initial))
     = []\<close>
  by code_simp

section \<open>The end of the stream\<close>

text \<open>
  C9, as the code has it. When \<^verbatim>\<open>processStreamingResponse\<close> is left, whatever the stream
  and however it ended, the structured buffers, the completed indices, the two text
  flags, the inline carryover, the active inline call and the registry of call keys are
  back at their initial values, while the output-size counter keeps the value the read
  loop gave it. The assignments at the head of the next request then put every field of
  the decoder, the counter and both registries included, at its initial value.
\<close>

theorem C9_reset_after_stream:
  "toolCallBuffers (snd (processStreamingResponse host stream st)) = [] \<and>
   completedToolCallIndices (snd (processStreamingResponse host stream st)) = {} \<and>
   hasEmittedAssistantText (snd (processStreamingResponse host stream st)) = False \<and>
   emittedBeginToolCallsHint (snd (processStreamingResponse host stream st)) = False \<and>
   textToolParserBuffer (snd (processStreamingResponse host stream st)) = [] \<and>
   textToolActive (snd (processStreamingResponse host stream st)) = None \<and>
   emittedTextToolCallKeys (snd (processStreamingResponse host stream st)) = {} \<and>
   outputTokenCount (snd (processStreamingResponse host stream st))
     = outputTokenCount (snd (readLoop host stream [] st)) \<and>
   requestReset (snd (processStreamingResponse host stream st))
     = initial\<lparr>reported := reported (snd (processStreamingResponse host stream st))\<rparr>"
  by (cases "readLoop host stream [] st")
     (simp add: processStreamingResponse_def finallyReset_def requestReset_def initial_def)

text \<open>The claim as it is written fails on the counter: after the stream of Scenario A
  (the text \<open>hi\<close>, then \<^verbatim>\<open>[DONE]\<close>) it is 1, not 0.\<close>

theorem C9_counterexample:
  \<open>outputTokenCount (snd (processStreamingResponse True
      [Chunk (''data: {"choices":[{"delta":{"content":"hi"}}]}'' @ [CHR 0x0A] @
              ''data: [DONE]'' @ [CHR 0x0A])] initial)) = 1 \<and>
   outputTokenCount initial = 0\<close>
  by code_simp

section \<open>Visible text\<close>

text \<open>
  C5 fails on the code. Each of the two replacements of \<^verbatim>\<open>stripControlTokens\<close> makes one
  pass, so a token that is put together by the removal of another one stays in the text:
  delivered in one chunk to a fresh session, \<^verbatim>\<open><|tool_call_<|tool_call_end|>end|>\<close> is
  reported as the text \<^verbatim>\<open><|tool_call_end|>\<close>, and in the same way the begin marker and
  a section delimiter reach a text part.
\<close>

theorem C5_nested_token_reaches_text:
  \<open>events (feed [''<|tool_call_<|tool_call_end|>end|>''] initial)
     = [TextPart ''<|tool_call_end|>''] \<and>
   events (feed [''<|tool_call_<|tool_call_end|>begin|>''] initial)
     = [TextPart ''<|tool_call_begin|>''] \<and>
   events (feed [''<|x_section_<|tool_call_end|>begin|>''] initial)
     = [TextPart ''<|x_section_begin|>'']\<close>
  by code_simp

text \<open>
  C4, as the code has it. Let no call be active. When the buffered text has no begin
  marker and is not itself a beginning of the marker, and \<open>k\<close> is the length of its longest
  end that is a proper beginning of the begin marker, then \<open>k\<close> is at most the length of
  the longest marker minus one, everything before these \<open>k\<close> characters is reported as
  visible text, control tokens stripped, and for \<open>k > 0\<close> the scanning branch sets the
  carryover to these \<open>k\<close> characters. When the buffered text has a begin marker with neither
  an argument-begin nor an end marker behind it, only the text before the begin marker is
  reported, and the scanning branch sets the carryover to the begin marker and all that
  follows it, whatever its length.
\<close>

theorem C4_scanning_flush_and_carryover:
  "(textToolActive st = None \<and> textToolParserBuffer st @ input \<noteq> [] \<and>
    indexOf (textToolParserBuffer st @ input) BEGIN = None \<and>
    \<not> prefix (textToolParserBuffer st @ input) BEGIN \<and>
    k < length BEGIN \<and> suffix (take k BEGIN) (textToolParserBuffer st @ input) \<and>
    (\<forall>j. k < j \<and> j < length BEGIN \<longrightarrow> \<not> suffix (take j BEGIN) (textToolParserBuffer st @ input))
    \<longrightarrow> k \<le> length ARG_BEGIN - 1 \<and>
        events (snd (processTextContent input st))
          = events st @ textParts (stripControlTokens
              (take (length (textToolParserBuffer st @ input) - k) (textToolParserBuffer st @ input))) \<and>
        (0 < k \<longrightarrow> stepState (scanStep (textToolParserBuffer st @ input) [] False st)
                    = st\<lparr>textToolParserBuffer :=
                           drop (length (textToolParserBuffer st @ input) - k)
                             (textToolParserBuffer st @ input)\<rparr>)) \<and>
   (textToolActive st = None \<and> indexOf (textToolParserBuffer st @ input) BEGIN = Some b \<and>
    findDelimiter (drop (b + length BEGIN) (textToolParserBuffer st @ input)) = None
    \<longrightarrow> events (snd (processTextContent input st))
          = events st @ textParts (stripControlTokens (take b (textToolParserBuffer st @ input))) \<and>
        stepState (scanStep (textToolParserBuffer st @ input) [] False st)
          = st\<lparr>textToolParserBuffer :=
                 BEGIN @ drop (b + length BEGIN) (textToolParserBuffer st @ input)\<rparr>)"
proof -
  define data where "data = textToolParserBuffer st @ input"
  have one: "k \<le> length ARG_BEGIN - 1 \<and>
        events (snd (processTextContent input st))
          = events st @ textParts (stripControlTokens (take (length data - k) data)) \<and>
        (0 < k \<longrightarrow> stepState (scanStep data [] False st)
                    = st\<lparr>textToolParserBuffer := drop (length data - k) data\<rparr>)"
    if h: "textToolActive st = None \<and> data \<noteq> [] \<and> indexOf data BEGIN = None \<and>
      \<not> prefix data BEGIN \<and> k < length BEGIN \<and> suffix (take k BEGIN) data \<and>
      (\<forall>j. k < j \<and> j < length BEGIN \<longrightarrow> \<not> suffix (take j BEGIN) data)"
  proof -
    from h have l: "longestPartialPrefix data = k"
      by (intro longestPartialPrefix_longest) simp_all
    from h have "k \<le> length ARG_BEGIN - 1" by (simp add: BEGIN_def ARG_BEGIN_def)
    moreover have "events (snd (processTextContent input st))
          = events st @ textParts (stripControlTokens (take (length data - k) data))"
      using scan_no_begin [of st input] h l by (simp add: data_def)
    moreover have "0 < k \<longrightarrow> stepState (scanStep data [] False st)
                    = st\<lparr>textToolParserBuffer := drop (length data - k) data\<rparr>"
      using scanStep_no_begin_carry [of data "[]" False st] h l by simp
    ultimately show ?thesis by simp
  qed
  have two: "events (snd (processTextContent input st))
          = events st @ textParts (stripControlTokens (take b data)) \<and>
        stepState (scanStep data [] False st)
          = st\<lparr>textToolParserBuffer := BEGIN @ drop (b + length BEGIN) data\<rparr>"
    if h: "textToolActive st = None \<and> indexOf data BEGIN = Some b \<and>
      findDelimiter (drop (b + length BEGIN) data) = None"
    using scan_begin_no_delimiter [of st input b] scanStep_begin_carry [of data b "[]" False st] h
    by (simp add: data_def)
  from one two show ?thesis
    unfolding data_def by blast
qed

text \<open>The witness: of \<^verbatim>\<open>hello <|tool\<close> the text up to the six characters that begin the
  marker is reported and these six are set as carryover; of \<^verbatim>\<open>hi<|tool_call_begin|>foo\<close>
  only \<^verbatim>\<open>hi\<close> is reported and the marker with the header is set as carryover.\<close>

theorem C4_witness:
  \<open>events (snd (processTextContent ''hello <|tool'' initial)) = [TextPart ''hello ''] \<and>
   stepState (scanStep ''hello <|tool'' [] False initial)
     = initial\<lparr>textToolParserBuffer := ''<|tool''\<rparr> \<and>
   events (snd (processTextContent ''hi<|tool_call_begin|>foo'' initial)) = [TextPart ''hi''] \<and>
   stepState (scanStep ''hi<|tool_call_begin|>foo'' [] False initial)
     = initial\<lparr>textToolParserBuffer := ''<|tool_call_begin|>foo''\<rparr>\<close>
proof -
  have b0: "textToolParserBuffer initial = []" and a0: "textToolActive initial = None"
    and e0: "events initial = []"
    by (simp_all add: initial_def events_def)
  have lb: "length BEGIN = 19" by (simp add: BEGIN_def)
  have n: "indexOf ''hello <|tool'' BEGIN = None" by code_simp
  have np: "\<not> prefix ''hello <|tool'' BEGIN" by code_simp
  have s6: "suffix (take 6 BEGIN) ''hello <|tool''" by code_simp
  have "list_all (\<lambda>j. \<not> suffix (take j BEGIN) ''hello <|tool'') [7..<19]" by code_simp
  then have u: "\<forall>j\<in>set [7..<19]. \<not> suffix (take j BEGIN) ''hello <|tool''"
    unfolding list_all_iff .
  have m: "\<forall>j. 6 < j \<and> j < length BEGIN \<longrightarrow> \<not> suffix (take j BEGIN) ''hello <|tool''"
  proof (intro allI impI)
    fix j :: nat
    assume "6 < j \<and> j < length BEGIN"
    then have "7 \<le> j \<and> j < 19" unfolding lb by arith
    then have "j \<in> set [7..<19]" by (simp only: set_upt atLeastLessThan_iff)
    with u show "\<not> suffix (take j BEGIN) ''hello <|tool''" by blast
  qed
  have s1: "stripControlTokens (take (length ''hello <|tool'' - 6) ''hello <|tool'') = ''hello ''"
    by code_simp
  have d1: "drop (length ''hello <|tool'' - 6) ''hello <|tool'' = ''<|tool''" by code_simp
  have i2: "indexOf ''hi<|tool_call_begin|>foo'' BEGIN = Some 2" by code_simp
  have d2: "findDelimiter (drop (2 + length BEGIN) ''hi<|tool_call_begin|>foo'') = None"
    by code_simp
  have s2: "stripControlTokens (take 2 ''hi<|tool_call_begin|>foo'') = ''hi''"
    by code_simp
  have c2: "BEGIN @ drop (2 + length BEGIN) ''hi<|tool_call_begin|>foo'' = ''<|tool_call_begin|>foo''"
    by code_simp
  note w1 = C4_scanning_flush_and_carryover [of initial "''hello <|tool''" 6]
  note w2 = C4_scanning_flush_and_carryover [of initial "''hi<|tool_call_begin|>foo''" _ 2]
  have f1: "events (snd (processTextContent ''hello <|tool'' initial)) = [TextPart ''hello '']"
    using w1 a0 n np s6 m s1 e0 by (simp add: b0 lb textParts_def)
  have f2: "stepState (scanStep ''hello <|tool'' [] False initial)
      = initial\<lparr>textToolParserBuffer := ''<|tool''\<rparr>"
    using w1 a0 n np s6 m d1 by (simp add: b0 lb)
  have f3: "events (snd (processTextContent ''hi<|tool_call_begin|>foo'' initial)) = [TextPart ''hi'']"
    using w2 a0 i2 d2 s2 e0 by (simp add: b0 textParts_def)
  have f4: "stepState (scanStep ''hi<|tool_call_begin|>foo'' [] False initial)
      = initial\<lparr>textToolParserBuffer := ''<|tool_call_begin|>foo''\<rparr>"
    using w2 a0 i2 d2 c2 by (simp add: b0)
  show ?thesis
    using f1 f2 f3 f4 by simp
qed

text \<open>The claim as it is written fails where a begin marker has been seen: the 49
  characters of the begin marker and thirty letters, more than the 27 of the bound, are
  not reported as visible text; the scanning branch sets all of them as carryover.\<close>

theorem C4_counterexample:
  \<open>events (snd (processTextContent ''<|tool_call_begin|>aaaaaaaaaaaaaaaaaaaaaaaaaaaaaa'' initial)) = [] \<and>
   textToolParserBuffer
     (stepState (scanStep ''<|tool_call_begin|>aaaaaaaaaaaaaaaaaaaaaaaaaaaaaa'' [] False initial))
     = ''<|tool_call_begin|>aaaaaaaaaaaaaaaaaaaaaaaaaaaaaa'' \<and>
   length ''<|tool_call_begin|>aaaaaaaaaaaaaaaaaaaaaaaaaaaaaa'' = 49 \<and>
   length ARG_BEGIN - 1 = 27\<close>
  by code_simp

section \<open>Inline calls\<close>

text \<open>
  C8. A malformed inline call is dropped without a trace. With an empty carryover: when no
  call is active and the text is a begin marker, a header without \<^verbatim>\<open><\<close>, the
  argument-begin marker, argument text that does not parse as a JSON object, the end
  marker (the first one behind the argument-begin marker) and any rest, then processing
  the text is the same as processing the rest alone: nothing is reported for the call, no
  registry changes, no call stays active, and the rest is handled as usual. When a call
  is active and not yet emitted and the end marker arrives while the argument text
  gathered up to it does not parse, the call is cleared and processing goes on behind the
  marker. While no end marker has arrived and the argument text gathered so far does not
  parse, the text is only appended to the argument buffer. \<^verbatim>\<open>processTextContent\<close> has no
  way to throw.
\<close>

theorem C8_malformed_inline_call:
  assumes "textToolParserBuffer st = []"
  shows
   "(textToolActive st = None \<and> CHR ''<'' \<notin> set hdr \<and>
     indexOf (args @ END @ rest) END = Some (length args) \<and> tryParseJSONObject args = None
     \<longrightarrow> processTextContent (BEGIN @ hdr @ ARG_BEGIN @ args @ END @ rest) st
           = processTextContent rest st) \<and>
    (textToolActive st = Some call \<and> \<not> emitted call \<and> indexOf data END = Some e \<and>
     tryParseJSONObject (argBuffer call @ take e data) = None
     \<longrightarrow> processTextContent data st
           = processTextContent (drop (e + length END) data) (st\<lparr>textToolActive := None\<rparr>)) \<and>
    (textToolActive st = Some call \<and> \<not> emitted call \<and> data \<noteq> [] \<and> indexOf data END = None \<and>
     tryParseJSONObject (argBuffer call @ data) = None
     \<longrightarrow> processTextContent data st
           = ((False, False),
              st\<lparr>textToolActive := Some (call\<lparr>argBuffer := argBuffer call @ data\<rparr>)\<rparr>))"
  using assms malformed_from_scanning malformed_from_capture malformed_waiting
  by blast

text \<open>The witness is Scenario D, the call \<open>bar\<close> with the argument text \<^verbatim>\<open>not-json\<close>: alone
  it leaves the fresh session as it is, and followed by \<^verbatim>\<open> ok\<close> it reports just that
  text; the same holds when the argument text arrives in pieces.\<close>

theorem C8_witness:
  \<open>processTextContent
      ''<|tool_call_begin|>bar<|tool_call_argument_begin|>not-json<|tool_call_end|>'' initial
     = ((False, False), initial) \<and>
   events (snd (processTextContent
      ''<|tool_call_begin|>bar<|tool_call_argument_begin|>not-json<|tool_call_end|> ok'' initial))
     = [TextPart '' ok''] \<and>
   processTextContent ''json<|tool_call_end|> ok''
      (initial\<lparr>textToolActive := Some \<lparr>call_name = Some ''bar'', call_index = None,
                                         argBuffer = ''not-'', emitted = False\<rparr>\<rparr>)
     = ((True, True), report (TextPart '' ok'') initial) \<and>
   processTextContent ''js''
      (initial\<lparr>textToolActive := Some \<lparr>call_name = Some ''bar'', call_index = None,
                                         argBuffer = ''not-'', emitted = False\<rparr>\<rparr>)
     = ((False, False),
        initial\<lparr>textToolActive := Some \<lparr>call_name = Some ''bar'', call_index = None,
                                         argBuffer = ''not-js'', emitted = False\<rparr>\<rparr>)\<close>
proof -
  define c where "c = \<lparr>call_name = Some ''bar'', call_index = None, argBuffer = ''not-'', emitted = False\<rparr>"
  define s where "s = initial\<lparr>textToolActive := Some c\<rparr>"
  have b0: "textToolParserBuffer initial = []" and a0: "textToolActive initial = None"
    by (simp_all add: initial_def)
  have bs: "textToolParserBuffer s = []" and as: "textToolActive s = Some c" and nc: "\<not> emitted c"
    by (simp_all add: s_def c_def initial_def)
  have h: "CHR ''<'' \<notin> set ''bar''" by simp
  have p: "tryParseJSONObject ''not-json'' = None" by code_simp
  have i1: "indexOf (''not-json'' @ END @ []) END = Some (length ''not-json'')" by code_simp
  have i2: "indexOf (''not-json'' @ END @ '' ok'') END = Some (length ''not-json'')" by code_simp
  have e0: "processTextContent [] initial = ((False, False), initial)" by code_simp
  have e1: "processTextContent '' ok'' initial = ((True, True), report (TextPart '' ok'') initial)"
    by code_simp
  have e1': "events (report (TextPart '' ok'') initial) = [TextPart '' ok'']"
    by (simp add: initial_def events_def report_def)
  have i3: "indexOf ''json<|tool_call_end|> ok'' END = Some 4" by code_simp
  have p3: "tryParseJSONObject (argBuffer c @ take 4 ''json<|tool_call_end|> ok'') = None"
    unfolding c_def by code_simp
  have d3: "drop (4 + length END) ''json<|tool_call_end|> ok'' = '' ok''" by code_simp
  have i4: "indexOf ''js'' END = None" by code_simp
  have p4: "tryParseJSONObject (argBuffer c @ ''js'') = None" unfolding c_def by code_simp
  have restore: "s\<lparr>textToolActive := None\<rparr> = initial" by (simp add: s_def initial_def)
  have w1: "processTextContent (BEGIN @ ''bar'' @ ARG_BEGIN @ ''not-json'' @ END @ []) initial
            = processTextContent [] initial"
    using C8_malformed_inline_call [OF b0, of "''bar''" "''not-json''" "[]"] a0 h p i1 by blast
  have w2: "processTextContent (BEGIN @ ''bar'' @ ARG_BEGIN @ ''not-json'' @ END @ '' ok'') initial
            = processTextContent '' ok'' initial"
    using C8_malformed_inline_call [OF b0, of "''bar''" "''not-json''" "'' ok''"] a0 h p i2 by blast
  have w3: "processTextContent ''json<|tool_call_end|> ok'' s
            = processTextContent (drop (4 + length END) ''json<|tool_call_end|> ok'')
                (s\<lparr>textToolActive := None\<rparr>)"
    using C8_malformed_inline_call [OF bs, of _ _ _ c "''json<|tool_call_end|> ok''" 4] as nc i3 p3
    by blast
  have w4: "processTextContent ''js'' s
            = ((False, False), s\<lparr>textToolActive := Some (c\<lparr>argBuffer := argBuffer c @ ''js''\<rparr>)\<rparr>)"
    using C8_malformed_inline_call [OF bs, of _ _ _ c "''js''"] as nc i4 p4 by blast
  have t1: "BEGIN @ ''bar'' @ ARG_BEGIN @ ''not-json'' @ END @ []
            = ''<|tool_call_begin|>bar<|tool_call_argument_begin|>not-json<|tool_call_end|>''"
    by (simp add: BEGIN_def ARG_BEGIN_def END_def)
  have t2: "BEGIN @ ''bar'' @ ARG_BEGIN @ ''not-json'' @ END @ '' ok''
            = ''<|tool_call_begin|>bar<|tool_call_argument_begin|>not-json<|tool_call_end|> ok''"
    by (simp add: BEGIN_def ARG_BEGIN_def END_def)
  have c4: "s\<lparr>textToolActive := Some (c\<lparr>argBuffer := argBuffer c @ ''js''\<rparr>)\<rparr>
     = initial\<lparr>textToolActive := Some \<lparr>call_name = Some ''bar'', call_index = None,
                                         argBuffer = ''not-js'', emitted = False\<rparr>\<rparr>"
    by (simp add: s_def c_def)
  have f1: "processTextContent
      ''<|tool_call_begin|>bar<|tool_call_argument_begin|>not-json<|tool_call_end|>'' initial
     = ((False, False), initial)"
    using w1 [unfolded t1] e0 by (rule trans)
  have f2: "processTextContent
      ''<|tool_call_begin|>bar<|tool_call_argument_begin|>not-json<|tool_call_end|> ok'' initial
     = ((True, True), report (TextPart '' ok'') initial)"
    using w2 [unfolded t2] e1 by (rule trans)
  have f3: "processTextContent ''json<|tool_call_end|> ok'' s
     = ((True, True), report (TextPart '' ok'') initial)"
    using w3 [unfolded d3 restore] e1 by (rule trans)
  note f4 = w4 [unfolded c4]
  show ?thesis
    unfolding c_def [symmetric] s_def [symmetric]
    using f1 f2 f3 f4 e1' by simp
qed


text \<open>
  C3 fails on the code. In one chunk the call of Scenario C is reported, followed by the
  text behind it. Split inside the header, inside the argument-begin marker or inside the
  end marker, the same text reports no tool call: the carryover that the scanning branch
  sets is overwritten with the empty loop variable before \<^verbatim>\<open>processTextContent\<close> returns,
  so the second chunk is read as plain text, and the argument branch keeps no partial end
  marker, so the call is never closed. The same happens to a begin marker split behind
  visible text: the branch sets the carryover \<^verbatim>\<open><|tool_call_be\<close>, and it is empty when
  the function returns.
\<close>

theorem C3_marker_split_loses_call:
  \<open>events (feed [''<|tool_call_begin|>foo<|tool_call_argument_begin|>{"x":1}<|tool_call_end|> done''] initial)
     = [ToolCallPart (FreshId ''tct_'') ''foo'' (JObj [(''x'', JNum 1 0)]), TextPart '' done''] \<and>
   events (feed [''<|tool_call_begin|>fo'',
                 ''o<|tool_call_argument_begin|>{"x":1}<|tool_call_end|> done''] initial)
     = [TextPart ''o{"x":1} done''] \<and>
   events (feed [''<|tool_call_begin|>foo<|tool_call_argu'',
                 ''ment_begin|>{"x":1}<|tool_call_end|> done''] initial)
     = [TextPart ''ment_begin|>{"x":1} done''] \<and>
   events (feed [''<|tool_call_begin|>foo<|tool_call_argument_begin|>{"x":1}<|tool_call_e'',
                 ''nd|> done''] initial)
     = [] \<and>
   events (feed [''abc<|tool_call_begin|>foo<|tool_call_argument_begin|>{"x":1}<|tool_call_end|> done''] initial)
     = [ToolCallPart (FreshId ''tct_'') ''foo'' (JObj [(''x'', JNum 1 0)]), TextPart ''abc done''] \<and>
   events (feed [''abc<|tool_call_be'',
                 ''gin|>foo<|tool_call_argument_begin|>{"x":1}<|tool_call_end|> done''] initial)
     = [TextPart ''abc'', TextPart ''gin|>foo{"x":1} done''] \<and>
   textToolParserBuffer (stepState (scanStep ''abc<|tool_call_be'' [] False initial)) = ''<|tool_call_be'' \<and>
   textToolParserBuffer (snd (processTextContent ''abc<|tool_call_be'' initial)) = []\<close>
  by code_simp

section \<open>Deduplication\<close>

text \<open>
  C1, as the code has it. Every tool call handed to the caller, by either channel, has its
  key for (name, canonical arguments) in the registry at the moment it is reported, and
  the registry keeps the key for the rest of the read loop: this holds for the fresh
  session and is kept by \<^verbatim>\<open>processDelta\<close>, by the handling of a line and by the whole read
  loop. So once a call has been reported, by whichever channel, an inline call without a
  declared index that has the same name and the same canonical arguments is not reported
  again: \<^verbatim>\<open>emitTextToolCallIfValid\<close> returns false and changes nothing, and a chunk that
  begins with such a call is processed as if the call were not there.
\<close>

theorem C1_dedup_key_before_report:
  "keysBeforeReports initial \<and>
   (keysBeforeReports st
    \<longrightarrow> keysBeforeReports (snd (processDelta host c st)) \<and>
        keysBeforeReports (processLine host line st) \<and>
        keysBeforeReports (snd (readLoop host stream buffer st))) \<and>
   (keysBeforeReports st \<and> ToolCallPart i n v \<in> set (events st) \<and> call_index call = None \<and>
    (case call_name call of None \<Rightarrow> ''unknown_tool'' | Some m \<Rightarrow> m) = n \<and>
    tryParseJSONObject argText = Some v' \<and> JSON_stringify v' = JSON_stringify v
    \<longrightarrow> emitTextToolCallIfValid call argText st = (False, st)) \<and>
   (keysBeforeReports st \<and> ToolCallPart i n v \<in> set (events st) \<and>
    textToolParserBuffer st = [] \<and> textToolActive st = None \<and> CHR ''<'' \<notin> set hdr \<and>
    indexOf (args @ END @ rest) END = Some (length args) \<and>
    call_index (headerCall hdr) = None \<and>
    (case call_name (headerCall hdr) of None \<Rightarrow> ''unknown_tool'' | Some m \<Rightarrow> m) = n \<and>
    tryParseJSONObject args = Some v' \<and> JSON_stringify v' = JSON_stringify v
    \<longrightarrow> processTextContent (BEGIN @ hdr @ ARG_BEGIN @ args @ END @ rest) st
          = processTextContent rest st)"
proof (intro conjI impI)
  show "keysBeforeReports initial"
    by (simp add: keysBeforeReports_def initial_def)
next
  assume "keysBeforeReports st"
  then show "keysBeforeReports (snd (processDelta host c st))"
    using grows_processDelta by (rule inv_grows)
next
  assume "keysBeforeReports st"
  then show "keysBeforeReports (processLine host line st)"
    using grows_processLine by (rule inv_grows)
next
  assume "keysBeforeReports st"
  then show "keysBeforeReports (snd (readLoop host stream buffer st))"
    using grows_readLoop by (rule inv_grows)
next
  assume a: "keysBeforeReports st \<and> ToolCallPart i n v \<in> set (events st) \<and> call_index call = None \<and>
    (case call_name call of None \<Rightarrow> ''unknown_tool'' | Some m \<Rightarrow> m) = n \<and>
    tryParseJSONObject argText = Some v' \<and> JSON_stringify v' = JSON_stringify v"
  then have "callKey n v \<in> emittedTextToolCallKeys st"
    using registered_key_known by blast
  with a have "(case call_name call of None \<Rightarrow> ''unknown_tool'' | Some m \<Rightarrow> m)
      @ '':'' @ JSON_stringify v' \<in> emittedTextToolCallKeys st"
    by (simp add: callKey_def)
  with a show "emitTextToolCallIfValid call argText st = (False, st)"
    using emit_known_key by blast
next
  assume a: "keysBeforeReports st \<and> ToolCallPart i n v \<in> set (events st) \<and>
    textToolParserBuffer st = [] \<and> textToolActive st = None \<and> CHR ''<'' \<notin> set hdr \<and>
    indexOf (args @ END @ rest) END = Some (length args) \<and>
    call_index (headerCall hdr) = None \<and>
    (case call_name (headerCall hdr) of None \<Rightarrow> ''unknown_tool'' | Some m \<Rightarrow> m) = n \<and>
    tryParseJSONObject args = Some v' \<and> JSON_stringify v' = JSON_stringify v"
  then have "callKey n v \<in> emittedTextToolCallKeys st"
    using registered_key_known by blast
  with a have "(case call_name (headerCall hdr) of None \<Rightarrow> ''unknown_tool'' | Some m \<Rightarrow> m)
      @ '':'' @ JSON_stringify v' \<in> emittedTextToolCallKeys st"
    by (simp add: callKey_def)
  with a show "processTextContent (BEGIN @ hdr @ ARG_BEGIN @ args @ END @ rest) st
          = processTextContent rest st"
    using duplicate_from_scanning by blast
qed

text \<open>The witness: after the structured call \<open>foo\<close> with the arguments \<^verbatim>\<open>{"x":1}\<close> has been
  reported, the inline call \<open>foo\<close> with the argument text \<^verbatim>\<open>{ "x" : 1 }\<close>, which has the
  same canonical form, is not reported.\<close>

theorem C1_witness:
  \<open>keysBeforeReports (snd (processDelta True (Some (fragment 0 (Some ''foo'') ''{"x":1}'')) initial)) \<and>
   events (snd (processDelta True (Some (fragment 0 (Some ''foo'') ''{"x":1}'')) initial))
     = [ToolCallPart (FreshId ''call_'') ''foo'' (JObj [(''x'', JNum 1 0)])] \<and>
   emitTextToolCallIfValid
      \<lparr>call_name = Some ''foo'', call_index = None, argBuffer = [], emitted = False\<rparr> ''{ "x" : 1 }''
      (snd (processDelta True (Some (fragment 0 (Some ''foo'') ''{"x":1}'')) initial))
     = (False, snd (processDelta True (Some (fragment 0 (Some ''foo'') ''{"x":1}'')) initial)) \<and>
   events (snd (processTextContent
      ''<|tool_call_begin|>foo<|tool_call_argument_begin|>{ "x" : 1 }<|tool_call_end|>''
      (snd (processDelta True (Some (fragment 0 (Some ''foo'') ''{"x":1}'')) initial))))
     = [ToolCallPart (FreshId ''call_'') ''foo'' (JObj [(''x'', JNum 1 0)])]\<close>
proof -
  define s where \<open>s = snd (processDelta True (Some (fragment 0 (Some ''foo'') ''{"x":1}'')) initial)\<close>
  define c where "c = \<lparr>call_name = Some ''foo'', call_index = None, argBuffer = [], emitted = False\<rparr>"
  define v where "v = JObj [(''x'', JNum 1 0)]"
  have i0: "keysBeforeReports initial"
    using C1_dedup_key_before_report by blast
  have k: "keysBeforeReports s"
    unfolding s_def using C1_dedup_key_before_report i0 by blast
  have e: "events s = [ToolCallPart (FreshId ''call_'') ''foo'' v]"
    unfolding s_def v_def by code_simp
  then have m: "ToolCallPart (FreshId ''call_'') ''foo'' v \<in> set (events s)" by simp
  have p: \<open>tryParseJSONObject ''{ "x" : 1 }'' = Some v\<close> unfolding v_def by code_simp
  have bs: "textToolParserBuffer s = []" and as: "textToolActive s = None"
    unfolding s_def by code_simp+
  have h: "CHR ''<'' \<notin> set ''foo''" by simp
  have x: \<open>indexOf (''{ "x" : 1 }'' @ END @ []) END = Some (length ''{ "x" : 1 }'')\<close> by code_simp
  have hc: "call_index (headerCall ''foo'') = None"
    "(case call_name (headerCall ''foo'') of None \<Rightarrow> ''unknown_tool'' | Some m \<Rightarrow> m) = ''foo''"
    by code_simp+
  have cc: "call_index c = None"
    "(case call_name c of None \<Rightarrow> ''unknown_tool'' | Some m \<Rightarrow> m) = ''foo''"
    by (simp_all add: c_def)
  have w1: \<open>emitTextToolCallIfValid c ''{ "x" : 1 }'' s = (False, s)\<close>
    using C1_dedup_key_before_report [of s _ _ _ _ _ "FreshId ''call_''" "''foo''" v c _ v]
      k m cc p by blast
  have w2: \<open>processTextContent (BEGIN @ ''foo'' @ ARG_BEGIN @ ''{ "x" : 1 }'' @ END @ []) s
            = processTextContent [] s\<close>
    using C1_dedup_key_before_report [of s _ _ _ _ _ "FreshId ''call_''" "''foo''" v _ _ v "''foo''"]
      k m bs as h x hc p by blast
  have t: \<open>BEGIN @ ''foo'' @ ARG_BEGIN @ ''{ "x" : 1 }'' @ END @ []
      = ''<|tool_call_begin|>foo<|tool_call_argument_begin|>{ "x" : 1 }<|tool_call_end|>''\<close>
    by (simp add: BEGIN_def ARG_BEGIN_def END_def)
  have n: "snd (processTextContent [] s) = s"
    using bs by (simp add: processTextContent_def buffer_same)
  have w3: \<open>events (snd (processTextContent
      ''<|tool_call_begin|>foo<|tool_call_argument_begin|>{ "x" : 1 }<|tool_call_end|>'' s))
      = [ToolCallPart (FreshId ''call_'') ''foo'' v]\<close>
    using w2 [unfolded t] n e by simp
  show ?thesis
    unfolding s_def [symmetric] c_def [symmetric] v_def [symmetric]
    using k e w1 w3 by simp
qed

text \<open>The claim as it is written fails when the inline channel comes first: the
  structured channel does not consult the registry, so the same call is reported twice.\<close>

theorem C1_counterexample:
  \<open>events (snd (processDelta True (Some (fragment 0 (Some ''foo'') ''{"x":1}''))
      (snd (processDelta True
         (Some (textDelta ''<|tool_call_begin|>foo<|tool_call_argument_begin|>{"x":1}<|tool_call_end|>''))
         initial))))
   = [ToolCallPart (FreshId ''tct_'') ''foo'' (JObj [(''x'', JNum 1 0)]),
      ToolCallPart (FreshId ''call_'') ''foo'' (JObj [(''x'', JNum 1 0)])]\<close>
  by code_simp

end
